theory Spec2Isabelle
  imports Main
begin

section \<open>Strings and the regular expressions of the source\<close>

text \<open>
  JavaScript strings are modelled as \<^typ>\<open>string\<close>.  The model covers ASCII text: white space
  (\<open>\s\<close>, \<open>trim\<close>) is space, tab, line feed, vertical tab, form feed and carriage return, the
  line terminators are line feed and carriage return, and \<open>toLowerCase\<close> maps \<open>A\<close>..\<open>Z\<close>.
\<close>

definition LF :: char where "LF = CHR 0x0A"
definition CR :: char where "CR = CHR 0x0D"

definition isSpace :: "char \<Rightarrow> bool" where
  "isSpace c = (c = CHR '' '' \<or> c = CHR 0x09 \<or> c = CHR 0x0A \<or> c = CHR 0x0B \<or> c = CHR 0x0C \<or> c = CHR 0x0D)"

definition isLineTerminator :: "char \<Rightarrow> bool" where
  "isLineTerminator c = (c = CHR 0x0A \<or> c = CHR 0x0D)"

definition isDigit :: "char \<Rightarrow> bool" where
  "isDigit c = (48 \<le> (of_char c :: nat) \<and> (of_char c :: nat) \<le> 57)"

definition isUpper :: "char \<Rightarrow> bool" where
  "isUpper c = (65 \<le> (of_char c :: nat) \<and> (of_char c :: nat) \<le> 90)"

definition isLower :: "char \<Rightarrow> bool" where
  "isLower c = (97 \<le> (of_char c :: nat) \<and> (of_char c :: nat) \<le> 122)"

definition lowerChar :: "char \<Rightarrow> char" where
  "lowerChar c = (if isUpper c then char_of ((of_char c :: nat) + 32) else c)"

definition toLowerCase :: "string \<Rightarrow> string" where
  "toLowerCase s = map lowerChar s"

definition trim :: "string \<Rightarrow> string" where
  "trim s = rev (dropWhile isSpace (rev (dropWhile isSpace s)))"

definition startsWith :: "string \<Rightarrow> string \<Rightarrow> bool" where
  "startsWith s p = (take (length p) s = p)"

fun includesStr :: "string \<Rightarrow> string \<Rightarrow> bool" where
  "includesStr [] p = (p = [])"
| "includesStr (c # cs) p = (startsWith (c # cs) p \<or> includesStr cs p)"

text \<open>
  The regular expressions of the source are sequences of literal characters, the anchors
  \<open>^\<close> and \<open>$\<close>, and quantified character classes, some of them captured as groups.
  \<open>Rep cls lo hi greedy cap\<close> is the class \<open>cls\<close> repeated at least \<open>lo\<close> and at most \<open>hi\<close>
  times, greedy (\<open>+\<close>, \<open>*\<close>, \<open>?\<close>) or lazy (\<open>*?\<close>), captured as a group when \<open>cap\<close> holds.
  \<open>matchSeq\<close> is the backtracking matcher at one position: \<open>prev\<close> is the character before
  the position (for \<open>^\<close>), the flag \<open>ml\<close> is the \<open>m\<close> flag.  It returns the groups and the
  text after the match.
\<close>

datatype atom = Chr char | Bol | Eol | Rep "char \<Rightarrow> bool" nat "nat option" bool bool

fun firstSome :: "('a \<Rightarrow> 'b option) \<Rightarrow> 'a list \<Rightarrow> 'b option" where
  "firstSome f [] = None"
| "firstSome f (x # xs) = (case f x of Some y \<Rightarrow> Some y | None \<Rightarrow> firstSome f xs)"

definition atBol :: "bool \<Rightarrow> char option \<Rightarrow> bool" where
  "atBol ml prev = (case prev of None \<Rightarrow> True | Some c \<Rightarrow> ml \<and> isLineTerminator c)"

definition atEol :: "bool \<Rightarrow> string \<Rightarrow> bool" where
  "atEol ml s = (case s of [] \<Rightarrow> True | c # _ \<Rightarrow> ml \<and> isLineTerminator c)"

definition prevAfter :: "char option \<Rightarrow> string \<Rightarrow> char option" where
  "prevAfter prev consumed = (if consumed = [] then prev else Some (last consumed))"

fun matchSeq :: "bool \<Rightarrow> atom list \<Rightarrow> char option \<Rightarrow> string \<Rightarrow> (string list \<times> string) option" where
  "matchSeq ml [] prev s = Some ([], s)"
| "matchSeq ml (Chr c # as) prev s =
     (case s of [] \<Rightarrow> None
      | x # xs \<Rightarrow> if x = c then matchSeq ml as (Some x) xs else None)"
| "matchSeq ml (Bol # as) prev s = (if atBol ml prev then matchSeq ml as prev s else None)"
| "matchSeq ml (Eol # as) prev s = (if atEol ml s then matchSeq ml as prev s else None)"
| "matchSeq ml (Rep cls lo hi greedy cap # as) prev s =
     (let avail = length (takeWhile cls s);
          most = (case hi of None \<Rightarrow> avail | Some h \<Rightarrow> min h avail);
          counts = (if greedy then rev [lo..<Suc most] else [lo..<Suc most])
      in firstSome (\<lambda>n.
           case matchSeq ml as (prevAfter prev (take n s)) (drop n s) of
             None \<Rightarrow> None
           | Some (caps, rest) \<Rightarrow> Some (if cap then take n s # caps else caps, rest)) counts)"

text \<open>
  \<open>search\<close> is the leftmost match (\<open>String.prototype.match\<close> and \<open>RegExp.prototype.test\<close>
  without the \<open>g\<close> flag): the text before the match, the groups, the matched text and the
  text after it.
\<close>

fun search :: "bool \<Rightarrow> atom list \<Rightarrow> char option \<Rightarrow> string
    \<Rightarrow> (string \<times> string list \<times> string \<times> string) option" where
  "search ml re prev [] =
     (case matchSeq ml re prev [] of
        Some (caps, rest) \<Rightarrow> Some ([], caps, [], rest)
      | None \<Rightarrow> None)"
| "search ml re prev (c # cs) =
     (case matchSeq ml re prev (c # cs) of
        Some (caps, rest) \<Rightarrow> Some ([], caps, take (length (c # cs) - length rest) (c # cs), rest)
      | None \<Rightarrow>
         (case search ml re (Some c) cs of
            None \<Rightarrow> None
          | Some (pre, r) \<Rightarrow> Some (c # pre, r)))"

definition test :: "bool \<Rightarrow> atom list \<Rightarrow> string \<Rightarrow> bool" where
  "test ml re s = (search ml re None s \<noteq> None)"

text \<open>The first group of the leftmost match: \<open>m[1]\<close> of \<open>content.match(re)\<close>.\<close>

definition matchGroup1 :: "bool \<Rightarrow> atom list \<Rightarrow> string \<Rightarrow> string option" where
  "matchGroup1 ml re s =
     (case search ml re None s of
        None \<Rightarrow> None
      | Some (pre, caps, m, rest) \<Rightarrow> (case caps of [] \<Rightarrow> None | g # _ \<Rightarrow> Some g))"

text \<open>
  \<open>replaceAll\<close> is \<open>String.prototype.replace\<close> with a \<open>g\<close> regular expression: every
  match, left to right, is replaced by \<open>rep\<close> of its groups; after an empty match the scan
  moves on by one character.
\<close>

fun replaceAll :: "bool \<Rightarrow> atom list \<Rightarrow> (string list \<Rightarrow> string) \<Rightarrow> char option \<Rightarrow> string \<Rightarrow> string" where
  "replaceAll ml re rep prev [] =
     (case matchSeq ml re prev [] of Some (caps, rest) \<Rightarrow> rep caps | None \<Rightarrow> [])"
| "replaceAll ml re rep prev (c # cs) =
     (case matchSeq ml re prev (c # cs) of
        None \<Rightarrow> c # replaceAll ml re rep (Some c) cs
      | Some (caps, rest) \<Rightarrow>
          if length rest < length (c # cs)
          then rep caps @ replaceAll ml re rep
                 (prevAfter prev (take (length (c # cs) - length rest) (c # cs))) rest
          else rep caps @ c # replaceAll ml re rep (Some c) cs)"

text \<open>\<open>String.prototype.split\<close> with a regular expression that matches no empty text.\<close>

fun splitRe :: "bool \<Rightarrow> atom list \<Rightarrow> char option \<Rightarrow> string \<Rightarrow> string list" where
  "splitRe ml re prev s =
     (case search ml re prev s of
        None \<Rightarrow> [s]
      | Some (pre, caps, m, rest) \<Rightarrow>
          if length rest < length s then pre # splitRe ml re (prevAfter prev (pre @ m)) rest
          else [s])"

definition grp :: "nat \<Rightarrow> string list \<Rightarrow> string" where
  "grp k caps = (if k < length caps then caps ! k else [])"

declare splitRe.simps [simp del]

section \<open>Paths\<close>

text \<open>
  The POSIX functions of Node's \<open>path\<close> module that the source calls: \<open>extname\<close>,
  \<open>basename\<close> with an extension to strip, and \<open>join\<close> (which normalises its result).
\<close>

fun segments :: "string \<Rightarrow> string list" where
  "segments [] = [[]]"
| "segments (c # cs) =
     (if c = CHR ''/'' then [] # segments cs
      else (case segments cs of [] \<Rightarrow> [[c]] | seg # segs \<Rightarrow> (c # seg) # segs))"

definition baseSegment :: "string \<Rightarrow> string" where
  "baseSegment p = (case filter (\<lambda>seg. seg \<noteq> []) (segments p) of [] \<Rightarrow> [] | segs \<Rightarrow> last segs)"

definition extname :: "string \<Rightarrow> string" where
  "extname p =
     (let b = baseSegment p;
          ext = rev (takeWhile (\<lambda>c. c \<noteq> CHR ''.'') (rev b));
          stem = rev (drop 1 (dropWhile (\<lambda>c. c \<noteq> CHR ''.'') (rev b)))
      in if CHR ''.'' \<notin> set b \<or> stem = [] \<or> b = ''..'' then [] else CHR ''.'' # ext)"

definition basename :: "string \<Rightarrow> string \<Rightarrow> string" where
  "basename p ext =
     (let b = baseSegment p in
      if ext = [] then b
      else if ext = p then []
      else if length ext < length b \<and> drop (length b - length ext) b = ext
           then take (length b - length ext) b
      else b)"

fun normSegs :: "bool \<Rightarrow> string list \<Rightarrow> string list \<Rightarrow> string list" where
  "normSegs allowAbove acc [] = rev acc"
| "normSegs allowAbove acc (seg # segs) =
     (if seg = [] \<or> seg = ''.'' then normSegs allowAbove acc segs
      else if seg = ''..'' then
        (case acc of
           [] \<Rightarrow> normSegs allowAbove (if allowAbove then [''..''] else []) segs
         | seg' # acc' \<Rightarrow>
             if seg' = ''..'' then normSegs allowAbove (if allowAbove then ''..'' # acc else acc) segs
             else normSegs allowAbove acc' segs)
      else normSegs allowAbove (seg # acc) segs)"

fun intercalate :: "string \<Rightarrow> string list \<Rightarrow> string" where
  "intercalate sep [] = []"
| "intercalate sep [x] = x"
| "intercalate sep (x # y # ys) = x @ sep @ intercalate sep (y # ys)"

definition normalize :: "string \<Rightarrow> string" where
  "normalize p =
     (if p = [] then ''.''
      else
        let isAbsolute = (hd p = CHR ''/'');
            trailing = (last p = CHR ''/'');
            q = intercalate ''/'' (normSegs (\<not> isAbsolute) [] (segments p))
        in if q = [] then (if isAbsolute then ''/'' else if trailing then ''./'' else ''.'')
           else (if isAbsolute then ''/'' else []) @ q @ (if trailing then ''/'' else []))"

definition join :: "string \<Rightarrow> string \<Rightarrow> string" where
  "join a b =
     (if a = [] \<and> b = [] then ''.''
      else if a = [] then normalize b
      else if b = [] then normalize a
      else normalize (a @ ''/'' @ b))"

section \<open>Format converter\<close>

text \<open>\<open>ImportCommand.isSupportedFile\<close>, \<open>detectFormat\<close>, \<open>convertToHtml\<close>,
  \<open>simpleMarkdownToHtml\<close> and \<open>escapeHtml\<close>.\<close>

definition isSupportedFile :: "string \<Rightarrow> bool" where
  "isSupportedFile fileName =
     (toLowerCase (extname fileName) \<in> set [''.md'', ''.markdown'', ''.html'', ''.htm'', ''.txt''])"

definition detectFormat :: "string \<Rightarrow> string" where
  "detectFormat fileName =
     (let ext = toLowerCase (extname fileName) in
      if ext = ''.md'' \<or> ext = ''.markdown'' then ''markdown''
      else if ext = ''.html'' \<or> ext = ''.htm'' then ''html''
      else ''markdown'')"

definition escapeChar :: "char \<Rightarrow> string" where
  "escapeChar c =
     (if c = CHR ''&'' then ''&amp;''
      else if c = CHR ''<'' then ''&lt;''
      else if c = CHR ''>'' then ''&gt;''
      else if c = CHR 0x22 then ''&quot;''
      else if c = CHR 0x27 then ''&#39;''
      else [c])"

definition escapeHtml :: "string \<Rightarrow> string" where
  "escapeHtml s = concat (map escapeChar s)"

definition notLT :: "char \<Rightarrow> bool" where
  "notLT c = (\<not> isLineTerminator c)"

definition anyChar :: "char \<Rightarrow> bool" where
  "anyChar c = True"

definition isNot :: "char \<Rightarrow> char \<Rightarrow> bool" where
  "isNot x c = (c \<noteq> x)"

definition lits :: "string \<Rightarrow> atom list" where
  "lits s = map Chr s"

definition BQ :: char where "BQ = CHR 0x60"

definition simpleMarkdownToHtml :: "string \<Rightarrow> string" where
  "simpleMarkdownToHtml markdown =
     (let html = markdown;
          \<comment> \<open>Headers\<close>
          html = replaceAll True (Bol # lits ''### '' @ [Rep notLT 0 None True True, Eol])
                   (\<lambda>g. ''<h3>'' @ grp 0 g @ ''</h3>'') None html;
          html = replaceAll True (Bol # lits ''## '' @ [Rep notLT 0 None True True, Eol])
                   (\<lambda>g. ''<h2>'' @ grp 0 g @ ''</h2>'') None html;
          html = replaceAll True (Bol # lits ''# '' @ [Rep notLT 0 None True True, Eol])
                   (\<lambda>g. ''<h1>'' @ grp 0 g @ ''</h1>'') None html;
          \<comment> \<open>Bold and italic\<close>
          html = replaceAll False (lits ''***'' @ [Rep notLT 0 None False True] @ lits ''***'')
                   (\<lambda>g. ''<strong><em>'' @ grp 0 g @ ''</em></strong>'') None html;
          html = replaceAll False (lits ''**'' @ [Rep notLT 0 None False True] @ lits ''**'')
                   (\<lambda>g. ''<strong>'' @ grp 0 g @ ''</strong>'') None html;
          html = replaceAll False (lits ''*'' @ [Rep notLT 0 None False True] @ lits ''*'')
                   (\<lambda>g. ''<em>'' @ grp 0 g @ ''</em>'') None html;
          \<comment> \<open>Links\<close>
          html = replaceAll False
                   (lits ''['' @ [Rep (isNot CHR '']'') 1 None True True] @ lits ''](''
                      @ [Rep (isNot CHR '')'') 1 None True True] @ lits '')'')
                   (\<lambda>g. ''<a href='' @ [CHR 0x22] @ grp 1 g @ [CHR 0x22] @ ''>'' @ grp 0 g @ ''</a>'')
                   None html;
          \<comment> \<open>Code blocks\<close>
          html = replaceAll False ([Chr BQ, Chr BQ, Chr BQ, Rep anyChar 0 None False True, Chr BQ, Chr BQ, Chr BQ])
                   (\<lambda>g. ''<pre><code>'' @ grp 0 g @ ''</code></pre>'') None html;
          html = replaceAll False ([Chr BQ, Rep (isNot BQ) 1 None True True, Chr BQ])
                   (\<lambda>g. ''<code>'' @ grp 0 g @ ''</code>'') None html;
          \<comment> \<open>Line breaks\<close>
          html = replaceAll False [Chr LF, Chr LF] (\<lambda>g. ''</p><p>'') None html;
          html = replaceAll False [Chr LF] (\<lambda>g. ''<br>'') None html
      in \<comment> \<open>Wrap in paragraphs if not already wrapped\<close>
         if \<not> includesStr html ''<p>'' \<and> \<not> includesStr html ''<h1>''
            \<and> \<not> includesStr html ''<h2>'' \<and> \<not> includesStr html ''<h3>''
         then ''<p>'' @ html @ ''</p>''
         else html)"

definition convertToHtml :: "string \<Rightarrow> string \<Rightarrow> string" where
  "convertToHtml content format =
     (if format = ''html'' then content
      else if format = ''markdown'' then simpleMarkdownToHtml content
      else ''<pre>'' @ escapeHtml content @ ''</pre>'')"

section \<open>The local file system\<close>

text \<open>
  A directory is the list of its entries in \<open>fs.readdir\<close> order.  \<open>File name content\<close> is a
  regular file with its UTF-8 text, \<open>Dir name entries\<close> a directory, and \<open>Special name\<close> an
  entry for which both \<open>isFile()\<close> and \<open>isDirectory()\<close> are false.
\<close>

datatype node = File string string | Dir string "node list" | Special string

fun nodeName :: "node \<Rightarrow> string" where
  "nodeName (File n c) = n"
| "nodeName (Dir n es) = n"
| "nodeName (Special n) = n"

text \<open>
  What the source throws: \<open>Failure msg\<close> is \<open>new Error(msg)\<close>, \<open>HttpError status\<close> and
  \<open>NetworkError\<close> are the transport's rejections (with and without a response), and
  \<open>FsError code\<close> is a rejection of \<open>fs\<close>.
\<close>

datatype error = Failure string | HttpError nat | NetworkError | FsError string

text \<open>\<open>fs.readFile(path.join(dir, name), 'utf8')\<close> for an entry of \<open>dir\<close>.\<close>

definition readEntry :: "node \<Rightarrow> error + string" where
  "readEntry e = (case e of File n c \<Rightarrow> Inr c | Dir n es \<Rightarrow> Inl (FsError ''EISDIR'') | Special n \<Rightarrow> Inl (FsError ''EIO''))"

definition lookupEntry :: "string \<Rightarrow> node list \<Rightarrow> node option" where
  "lookupEntry name entries = find (\<lambda>e. nodeName e = name) entries"

section \<open>Tree walker\<close>

text \<open>
  \<open>ImportCommand.walkFiles\<close>.  The inner \<open>walk(current, currentDepth)\<close> visits the entries
  of \<open>current\<close> in order; \<open>onFile\<close> is awaited for every file, and a rejection of \<open>onFile\<close>
  ends the walk.  The callback of the model receives the path and the text that
  \<open>fs.readFile\<close> returns for it (every callback of the source reads the file or only its
  name; none uses the second argument \<open>relName\<close>).
\<close>

function walk :: "(string \<Rightarrow> string \<Rightarrow> 's \<Rightarrow> (error + unit) \<times> 's) \<Rightarrow> string \<Rightarrow> node list \<Rightarrow> int
    \<Rightarrow> 's \<Rightarrow> (error + unit) \<times> 's" where
  "walk onFile current [] currentDepth s = (Inr (), s)"
| "walk onFile current (Dir ent sub # entries) currentDepth s =
     (case (if currentDepth > 0 then walk onFile (join current ent) sub (currentDepth - 1) s
            else (Inr (), s)) of
        (Inl e, s') \<Rightarrow> (Inl e, s')
      | (Inr u, s') \<Rightarrow> walk onFile current entries currentDepth s')"
| "walk onFile current (File ent content # entries) currentDepth s =
     (case onFile (join current ent) content s of
        (Inl e, s') \<Rightarrow> (Inl e, s')
      | (Inr u, s') \<Rightarrow> walk onFile current entries currentDepth s')"
| "walk onFile current (Special ent # entries) currentDepth s =
     walk onFile current entries currentDepth s"
  by pat_completeness auto
termination
  by (relation "measure (\<lambda>(onFile, current, entries, currentDepth, s). size_list size entries)") auto

definition walkFiles :: "string \<Rightarrow> node list \<Rightarrow> int \<Rightarrow> (string \<Rightarrow> string \<Rightarrow> 's \<Rightarrow> (error + unit) \<times> 's)
    \<Rightarrow> 's \<Rightarrow> (error + unit) \<times> 's" where
  "walkFiles root entries depth onFile s = walk onFile root entries (max 0 depth) s"

section \<open>Options\<close>

text \<open>
  \<open>ImportOptions\<close>.  An absent string is \<open>None\<close>; \<open>maxDepth\<close> is \<open>None\<close> when it is absent
  or not finite (\<open>Number.isFinite\<close> fails), and an integer otherwise.
\<close>

record options =
  book :: "string option"
  format :: "string option"
  dryRun :: bool
  maxDepth :: "int option"
  chapterFrom :: "string option"
  flatten :: bool

text \<open>\<open>a || b\<close> on strings: an absent or empty \<open>a\<close> is falsy.\<close>

definition truthy :: "string option \<Rightarrow> bool" where
  "truthy a = (a \<noteq> None \<and> a \<noteq> Some [])"

definition orElse :: "string option \<Rightarrow> string \<Rightarrow> string" where
  "orElse a b = (case a of None \<Rightarrow> b | Some x \<Rightarrow> if x = [] then b else x)"

definition effectiveMaxDepth :: "options \<Rightarrow> int" where
  "effectiveMaxDepth opts = (case maxDepth opts of None \<Rightarrow> 10 | Some n \<Rightarrow> n)"

section \<open>Count pass\<close>

text \<open>\<open>ImportCommand.countFiles\<close>: the state of both loops is the counter \<open>total\<close>.\<close>

definition countFiles :: "string \<Rightarrow> node list \<Rightarrow> options \<Rightarrow> nat" where
  "countFiles dirPath items opts =
     (let total = fold (\<lambda>item total.
                    case item of
                      File n c \<Rightarrow> if isSupportedFile n then total + 1 else total
                    | _ \<Rightarrow> total) items 0;
          maxDepth' = effectiveMaxDepth opts
      in fold (\<lambda>item total.
           case item of
             Dir n sub \<Rightarrow>
               snd (walkFiles (join dirPath n) sub (maxDepth' - 1)
                      (\<lambda>file content total. (Inr (), if isSupportedFile file then total + 1 else total))
                      total)
           | _ \<Rightarrow> total) items total)"

section \<open>The remote store and the transport client\<close>

text \<open>
  \<open>Book\<close>, \<open>Chapter\<close> and \<open>Page\<close> of the client (the timestamps and priorities are left
  out; no code under study reads them), and \<open>pageData\<close>, the \<open>Partial<Page>\<close> that the
  import sends.
\<close>

record bookRec =
  b_id :: nat
  b_name :: string
  b_slug :: string
  b_description :: "string option"

record chapterRec =
  c_id :: nat
  c_book_id :: nat
  c_name :: string
  c_slug :: string
  c_description :: "string option"

record pageData =
  pd_book_id :: nat
  pd_chapter_id :: "nat option"
  pd_name :: string
  pd_html :: string
  pd_markdown :: "string option"

record pageRec =
  p_id :: nat
  p_data :: pageData
  p_slug :: string

text \<open>
  A JavaScript number that holds a natural number or \<open>Infinity\<close>: what \<open>parseInt\<close> gives for
  a string of decimal digits.
\<close>

datatype number = Finite nat | Infinity

text \<open>The methods of \<open>BookStackClient\<close> that the import calls, with their arguments.\<close>

datatype call =
  TestConnection
| GetBooks
| GetBook number
| CreateBook string string
| UpdateBook nat string
| GetChapters nat
| CreateChapter nat string string
| CreatePage pageData

text \<open>
  The BookStack instance behind the client is outside the repository.  It is modelled as
  a store of books, chapters and pages: a create request stores the entity as sent, under
  the next free id and with the slug \<open>slugOf\<close> gives its name; a request that names a missing
  book or chapter is answered with status 404.  \<open>calls\<close> records every client method
  invoked, in order.  The transport may fail: the request number \<open>n\<close> (counted from 0 in
  \<open>calls\<close>) is rejected without reaching the store when \<open>n\<close> is in \<open>faults\<close>.

  Identifiers are natural numbers.  \<open>getBook(id)\<close> requests the path \<open>/books/${id}\<close>, which holds
  the text of the number: \<open>bookById\<close> is the book that the store holds under the number, and
  no book is held under \<open>Infinity\<close>.  (Up to \<open>2^53\<close> a number and its decimal text name each
  other; the identifiers of a store are taken to lie below.)
\<close>

record remote =
  books :: "bookRec list"
  chapters :: "chapterRec list"
  pages :: "pageRec list"
  next_id :: nat
  slugOf :: "string \<Rightarrow> string"
  calls :: "call list"
  faults :: "nat list"

definition request :: "call \<Rightarrow> remote \<Rightarrow> bool \<times> remote" where
  "request c r = (length (calls r) \<notin> set (faults r), r\<lparr>calls := calls r @ [c]\<rparr>)"

definition testConnection :: "remote \<Rightarrow> (error + bool) \<times> remote" where
  "testConnection r = (case request TestConnection r of (ok, r') \<Rightarrow> (Inr ok, r'))"

definition getBooks :: "remote \<Rightarrow> (error + bookRec list) \<times> remote" where
  "getBooks r =
     (case request GetBooks r of
        (False, r') \<Rightarrow> (Inl NetworkError, r')
      | (True, r') \<Rightarrow> (Inr (books r'), r'))"

definition bookById :: "number \<Rightarrow> bookRec list \<Rightarrow> bookRec option" where
  "bookById x bs = (case x of Finite n \<Rightarrow> find (\<lambda>b. b_id b = n) bs | Infinity \<Rightarrow> None)"

definition getBook :: "number \<Rightarrow> remote \<Rightarrow> (error + bookRec) \<times> remote" where
  "getBook x r =
     (case request (GetBook x) r of
        (False, r') \<Rightarrow> (Inl NetworkError, r')
      | (True, r') \<Rightarrow>
          (case bookById x (books r') of
             None \<Rightarrow> (Inl (HttpError 404), r')
           | Some b \<Rightarrow> (Inr b, r')))"

definition createBook :: "string \<Rightarrow> string \<Rightarrow> remote \<Rightarrow> (error + bookRec) \<times> remote" where
  "createBook name description r =
     (case request (CreateBook name description) r of
        (False, r') \<Rightarrow> (Inl NetworkError, r')
      | (True, r') \<Rightarrow>
          (let b = \<lparr>b_id = next_id r', b_name = name, b_slug = slugOf r' name,
                    b_description = Some description\<rparr>
           in (Inr b, r'\<lparr>books := books r' @ [b], next_id := Suc (next_id r')\<rparr>)))"

definition updateBook :: "nat \<Rightarrow> string \<Rightarrow> remote \<Rightarrow> (error + bookRec) \<times> remote" where
  "updateBook n description r =
     (case request (UpdateBook n description) r of
        (False, r') \<Rightarrow> (Inl NetworkError, r')
      | (True, r') \<Rightarrow>
          (case find (\<lambda>b. b_id b = n) (books r') of
             None \<Rightarrow> (Inl (HttpError 404), r')
           | Some b \<Rightarrow>
               (Inr (b\<lparr>b_description := Some description\<rparr>),
                r'\<lparr>books := map (\<lambda>x. if b_id x = n then x\<lparr>b_description := Some description\<rparr> else x)
                                (books r')\<rparr>)))"

definition getChapters :: "nat \<Rightarrow> remote \<Rightarrow> (error + chapterRec list) \<times> remote" where
  "getChapters bookId r =
     (case request (GetChapters bookId) r of
        (False, r') \<Rightarrow> (Inl NetworkError, r')
      | (True, r') \<Rightarrow>
          (case find (\<lambda>b. b_id b = bookId) (books r') of
             None \<Rightarrow> (Inl (HttpError 404), r')
           | Some b \<Rightarrow> (Inr (filter (\<lambda>c. c_book_id c = bookId) (chapters r')), r')))"

definition createChapter :: "nat \<Rightarrow> string \<Rightarrow> string \<Rightarrow> remote \<Rightarrow> (error + chapterRec) \<times> remote" where
  "createChapter bookId name description r =
     (case request (CreateChapter bookId name description) r of
        (False, r') \<Rightarrow> (Inl NetworkError, r')
      | (True, r') \<Rightarrow>
          (case find (\<lambda>b. b_id b = bookId) (books r') of
             None \<Rightarrow> (Inl (HttpError 404), r')
           | Some b \<Rightarrow>
               (let c = \<lparr>c_id = next_id r', c_book_id = bookId, c_name = name,
                         c_slug = slugOf r' name, c_description = Some description\<rparr>
                in (Inr c, r'\<lparr>chapters := chapters r' @ [c], next_id := Suc (next_id r')\<rparr>))))"

definition createPage :: "pageData \<Rightarrow> remote \<Rightarrow> (error + pageRec) \<times> remote" where
  "createPage d r =
     (case request (CreatePage d) r of
        (False, r') \<Rightarrow> (Inl NetworkError, r')
      | (True, r') \<Rightarrow>
          if find (\<lambda>b. b_id b = pd_book_id d) (books r') = None
             \<or> (case pd_chapter_id d of
                   None \<Rightarrow> False
                 | Some ch \<Rightarrow> find (\<lambda>c. c_id c = ch) (chapters r') = None)
          then (Inl (HttpError 404), r')
          else
            (let pg = \<lparr>p_id = next_id r', p_data = d, p_slug = slugOf r' (pd_name d)\<rparr>
             in (Inr pg, r'\<lparr>pages := pages r' @ [pg], next_id := Suc (next_id r')\<rparr>)))"

text \<open>\<open>BookStackClient.findBookByName\<close>.\<close>

definition findBookByName :: "string \<Rightarrow> remote \<Rightarrow> (error + bookRec option) \<times> remote" where
  "findBookByName name r =
     (case getBooks r of
        (Inl e, r') \<Rightarrow> (Inl e, r')
      | (Inr bs, r') \<Rightarrow>
          (Inr (find (\<lambda>b. toLowerCase (b_name b) = toLowerCase name
                         \<or> toLowerCase (b_slug b) = toLowerCase name) bs), r'))"

section \<open>Remote reconciler\<close>

text \<open>
  \<open>parseInt\<close> on a string of decimal digits, the only strings that \<open>getTargetBook\<close> hands to
  it (after \<open>/^\d+$/\<close> has accepted them): the integer that the digits denote, as a number.
  A number keeps 53 binary digits: \<open>toNumber\<close> rounds to the nearest such value, a tie to the
  one with an even last digit, and to \<open>Infinity\<close> when the rounded value needs more than 1024
  binary digits.
\<close>

fun bitLength :: "nat \<Rightarrow> nat" where
  "bitLength n = (if n = 0 then 0 else Suc (bitLength (n div 2)))"

declare bitLength.simps [simp del]

definition toNumber :: "nat \<Rightarrow> number" where
  "toNumber n =
     (let e = bitLength n - 53;
          q = n div 2 ^ e;
          r = n mod 2 ^ e;
          q' = (if 2 ^ e < 2 * r \<or> (2 * r = 2 ^ e \<and> odd q) then q + 1 else q)
      in if bitLength q' + e \<le> 1024 then Finite (q' * 2 ^ e) else Infinity)"

definition decimalValue :: "string \<Rightarrow> nat" where
  "decimalValue s = fold (\<lambda>c n. 10 * n + ((of_char c :: nat) - 48)) s 0"

definition parseInt :: "string \<Rightarrow> number" where
  "parseInt s = toNumber (decimalValue s)"

text \<open>The slug of the placeholder entities of a dry run:
  \<open>name.toLowerCase().replace(/\s+/g, '-')\<close>.\<close>

definition mockSlug :: "string \<Rightarrow> string" where
  "mockSlug name = replaceAll False [Rep isSpace 1 None True False] (\<lambda>g. ''-'') None (toLowerCase name)"

text \<open>\<open>ImportCommand.getTargetBook\<close>.  The rejection of \<open>getBook\<close> is caught and dropped.\<close>

definition getTargetBook :: "string \<Rightarrow> bool \<Rightarrow> remote \<Rightarrow> (error + bookRec) \<times> remote" where
  "getTargetBook bookName dry r =
     (if dry then
        (Inr \<lparr>b_id = 1, b_name = bookName, b_slug = mockSlug bookName, b_description = None\<rparr>, r)
      else
        case (if test False [Bol, Rep isDigit 1 None True False, Eol] bookName
              then (case getBook (parseInt bookName) r of
                      (Inl e, r') \<Rightarrow> (None, r')
                    | (Inr b, r') \<Rightarrow> (Some b, r'))
              else (None, r)) of
          (Some b, r1) \<Rightarrow> (Inr b, r1)
        | (None, r1) \<Rightarrow>
            (case findBookByName bookName r1 of
               (Inl e, r2) \<Rightarrow> (Inl e, r2)
             | (Inr (Some b), r2) \<Rightarrow> (Inr b, r2)
             | (Inr None, r2) \<Rightarrow> createBook bookName ''Book created by bookstack-cli import'' r2))"

text \<open>\<open>ImportCommand.getOrCreateChapter\<close>.\<close>

definition getOrCreateChapter :: "nat \<Rightarrow> string \<Rightarrow> string \<Rightarrow> bool \<Rightarrow> remote
    \<Rightarrow> (error + chapterRec) \<times> remote" where
  "getOrCreateChapter bookId name description dry r =
     (if dry then
        (Inr \<lparr>c_id = 1, c_book_id = bookId, c_name = name, c_slug = mockSlug name,
              c_description = None\<rparr>, r)
      else
        case getChapters bookId r of
          (Inl e, r1) \<Rightarrow> (Inl e, r1)
        | (Inr existing, r1) \<Rightarrow>
            (case find (\<lambda>c. toLowerCase (c_name c) = toLowerCase name) existing of
               Some found \<Rightarrow> (Inr found, r1)
             | None \<Rightarrow> createChapter bookId name description r1))"

section \<open>Metadata resolver\<close>

record metadata =
  m_name :: "string option"
  m_description :: "string option"

definition noMetadata :: metadata where
  "noMetadata = \<lparr>m_name = None, m_description = None\<rparr>"

text \<open>
  \<open>readChapterMetadata\<close> and \<open>readBookMetadata\<close>.  \<open>json\<close> stands for \<open>JSON.parse\<close> followed by
  the reads of \<open>data.name\<close> and \<open>data.description\<close>: \<open>None\<close> when that throws.  Every
  rejection inside the \<open>try\<close> is caught and gives the empty metadata.
\<close>

definition readMetadata :: "string \<Rightarrow> (string \<Rightarrow> metadata option) \<Rightarrow> node list \<Rightarrow> metadata" where
  "readMetadata metaName json entries =
     (case lookupEntry metaName entries of
        None \<Rightarrow> noMetadata
      | Some e \<Rightarrow>
          (case readEntry e of
             Inl err \<Rightarrow> noMetadata
           | Inr txt \<Rightarrow> (case json txt of None \<Rightarrow> noMetadata | Some m \<Rightarrow> m)))"

definition readChapterMetadata :: "(string \<Rightarrow> metadata option) \<Rightarrow> node list \<Rightarrow> metadata" where
  "readChapterMetadata json entries = readMetadata ''.chapter-metadata.json'' json entries"

definition readBookMetadata :: "(string \<Rightarrow> metadata option) \<Rightarrow> node list \<Rightarrow> metadata" where
  "readBookMetadata json entries = readMetadata ''.book-metadata.json'' json entries"

text \<open>The regular expressions \<open>/^#\s+(.+)$/m\<close>, \<open>/^##\s+(.+)$/m\<close>, \<open>/^###\s+(.+)$/m\<close> and
  \<open>/\r?\n/\<close> of \<open>deriveNameFromReadme\<close>.\<close>

definition headingRe :: "nat \<Rightarrow> atom list" where
  "headingRe level =
     Bol # replicate level (Chr CHR ''#'') @ [Rep isSpace 1 None True False, Rep notLT 1 None True True, Eol]"

definition newlineRe :: "atom list" where
  "newlineRe = [Rep (\<lambda>c. c = CR) 0 (Some 1) True False, Chr LF]"

text \<open>The body of the loop of \<open>deriveNameFromReadme\<close> for a candidate that was read:
  \<open>Some name\<close> when it returns, \<open>None\<close> when the loop goes on.\<close>

definition nameFromContent :: "string \<Rightarrow> string option" where
  "nameFromContent content =
     (let m = (case matchGroup1 True (headingRe 1) content of
                 Some g \<Rightarrow> Some g
               | None \<Rightarrow>
                   (case matchGroup1 True (headingRe 2) content of
                      Some g \<Rightarrow> Some g
                    | None \<Rightarrow> matchGroup1 True (headingRe 3) content))
      in case (case m of Some g \<Rightarrow> if g \<noteq> [] then Some (trim g) else None | None \<Rightarrow> None) of
           Some name \<Rightarrow> Some name
         | None \<Rightarrow>
             (case find (\<lambda>l. length (trim l) > 0) (splitRe False newlineRe None content) of
                Some line \<Rightarrow> Some (trim line)
              | None \<Rightarrow> None))"

fun deriveNameFrom :: "string list \<Rightarrow> node list \<Rightarrow> error + string option" where
  "deriveNameFrom [] entries = Inr None"
| "deriveNameFrom (c # candidates) entries =
     (case lookupEntry c entries of
        None \<Rightarrow> deriveNameFrom candidates entries
      | Some e \<Rightarrow>
          (case readEntry e of
             Inl err \<Rightarrow> Inl err
           | Inr content \<Rightarrow>
               (case nameFromContent content of
                  Some name \<Rightarrow> Inr (Some name)
                | None \<Rightarrow> deriveNameFrom candidates entries)))"

definition deriveNameFromReadme :: "node list \<Rightarrow> error + string option" where
  "deriveNameFromReadme entries =
     deriveNameFrom [''README.md'', ''Readme.md'', ''readme.md'', ''index.md''] entries"

section \<open>Import orchestrator\<close>

text \<open>
  The state of an import run: the remote store with its transport, and \<open>invoked\<close>, the
  record of the invocations of \<open>createPageInBook(bookId, filePath, displayName)\<close> and
  \<open>createPageInChapter(bookId, chapterId, filePath, displayName)\<close>, in order.
\<close>

datatype invocation = InBook nat string string | InChapter nat nat string string

record world =
  store :: remote
  invoked :: "invocation list"

definition onRemote :: "(remote \<Rightarrow> 'a \<times> remote) \<Rightarrow> world \<Rightarrow> 'a \<times> world" where
  "onRemote f w = (case f (store w) of (x, r') \<Rightarrow> (x, w\<lparr>store := r'\<rparr>))"

text \<open>\<open>createPageInBook\<close> and \<open>createPageInChapter\<close>; \<open>content\<close> is what
  \<open>fs.readFile(filePath, 'utf-8')\<close> returns.\<close>

definition createPageInBook :: "nat \<Rightarrow> string \<Rightarrow> string \<Rightarrow> string \<Rightarrow> options \<Rightarrow> world
    \<Rightarrow> (error + unit) \<times> world" where
  "createPageInBook bookId filePath content displayName opts w =
     (let w0 = w\<lparr>invoked := invoked w @ [InBook bookId filePath displayName]\<rparr>;
          fileName = basename displayName (extname displayName);
          fmt = orElse (format opts) (detectFormat filePath);
          pageData = \<lparr>pd_book_id = bookId, pd_chapter_id = None, pd_name = fileName,
                      pd_html = convertToHtml content fmt,
                      pd_markdown = (if fmt = ''markdown'' then Some content else None)\<rparr>
      in if dryRun opts then (Inr (), w0)
         else (case onRemote (createPage pageData) w0 of
                 (Inl e, w1) \<Rightarrow> (Inl e, w1)
               | (Inr pg, w1) \<Rightarrow> (Inr (), w1)))"

definition createPageInChapter :: "nat \<Rightarrow> nat \<Rightarrow> string \<Rightarrow> string \<Rightarrow> string \<Rightarrow> options \<Rightarrow> world
    \<Rightarrow> (error + unit) \<times> world" where
  "createPageInChapter bookId chapterId filePath content displayName opts w =
     (let w0 = w\<lparr>invoked := invoked w @ [InChapter bookId chapterId filePath displayName]\<rparr>;
          fileName = basename displayName (extname displayName);
          fmt = orElse (format opts) (detectFormat filePath);
          pageData = \<lparr>pd_book_id = bookId, pd_chapter_id = Some chapterId, pd_name = fileName,
                      pd_html = convertToHtml content fmt,
                      pd_markdown = (if fmt = ''markdown'' then Some content else None)\<rparr>
      in if dryRun opts then (Inr (), w0)
         else (case onRemote (createPage pageData) w0 of
                 (Inl e, w1) \<Rightarrow> (Inl e, w1)
               | (Inr pg, w1) \<Rightarrow> (Inr (), w1)))"

text \<open>\<open>ImportCommand.importFile\<close>.\<close>

definition importFile :: "string \<Rightarrow> string \<Rightarrow> options \<Rightarrow> world \<Rightarrow> (error + unit) \<times> world" where
  "importFile filePath content opts w =
     (let fileName = basename filePath (extname filePath) in
      case onRemote (getTargetBook (orElse (book opts) fileName) (dryRun opts)) w of
        (Inl e, w1) \<Rightarrow> (Inl e, w1)
      | (Inr targetBook, w1) \<Rightarrow>
          (let pageData = \<lparr>pd_book_id = b_id targetBook, pd_chapter_id = None, pd_name = fileName,
                           pd_html = convertToHtml content (orElse (format opts) ''markdown''),
                           pd_markdown = (if format opts = Some ''markdown'' then Some content else None)\<rparr>
           in if dryRun opts then (Inr (), w1)
              else (case onRemote (createPage pageData) w1 of
                      (Inl e, w2) \<Rightarrow> (Inl e, w2)
                    | (Inr pg, w2) \<Rightarrow> (Inr (), w2))))"

text \<open>The first loop of \<open>importDirectory\<close>: the files of the root become pages of the book.\<close>

fun importRootFiles :: "options \<Rightarrow> nat \<Rightarrow> string \<Rightarrow> node list \<Rightarrow> world \<Rightarrow> (error + unit) \<times> world" where
  "importRootFiles opts bookId dirPath [] w = (Inr (), w)"
| "importRootFiles opts bookId dirPath (File item content # items) w =
     (if isSupportedFile item then
        (case createPageInBook bookId (join dirPath item) content item opts w of
           (Inl e, w') \<Rightarrow> (Inl e, w')
         | (Inr u, w') \<Rightarrow> importRootFiles opts bookId dirPath items w')
      else importRootFiles opts bookId dirPath items w)"
| "importRootFiles opts bookId dirPath (other # items) w = importRootFiles opts bookId dirPath items w"

text \<open>The name of the chapter of a first-level subdirectory \<open>item\<close>.\<close>

definition chapterNameOf :: "metadata \<Rightarrow> string \<Rightarrow> string \<Rightarrow> node list \<Rightarrow> error + string" where
  "chapterNameOf chapterMeta chapterFrom' item entries =
     (if truthy (m_name chapterMeta) then Inr (the (m_name chapterMeta))
      else
        case (if chapterFrom' = ''readme'' then deriveNameFromReadme entries else Inr None) of
          Inl e \<Rightarrow> Inl e
        | Inr chapterName \<Rightarrow> Inr (orElse chapterName item))"

text \<open>The second loop of \<open>importDirectory\<close>: the first-level subdirectories.\<close>

fun importSubdirs :: "(string \<Rightarrow> metadata option) \<Rightarrow> options \<Rightarrow> nat \<Rightarrow> string \<Rightarrow> node list \<Rightarrow> world
    \<Rightarrow> (error + unit) \<times> world" where
  "importSubdirs json opts bookId dirPath [] w = (Inr (), w)"
| "importSubdirs json opts bookId dirPath (Dir item entries # items) w =
     (let itemPath = join dirPath item;
          maxDepth' = effectiveMaxDepth opts;
          chapterFrom' = orElse (chapterFrom opts) ''dir''
      in
      case
        (if flatten opts then
           walkFiles itemPath entries (maxDepth' - 1)
             (\<lambda>filePath content w'.
                if \<not> isSupportedFile filePath then (Inr (), w')
                else createPageInBook bookId filePath content (basename filePath []) opts w') w
         else
           case chapterNameOf (readChapterMetadata json entries) chapterFrom' item entries of
             Inl e \<Rightarrow> (Inl e, w)
           | Inr chapterName \<Rightarrow>
               (case onRemote (getOrCreateChapter bookId chapterName
                                 (orElse (m_description (readChapterMetadata json entries)) [])
                                 (dryRun opts)) w of
                  (Inl e, w1) \<Rightarrow> (Inl e, w1)
                | (Inr chapter, w1) \<Rightarrow>
                    walkFiles itemPath entries (maxDepth' - 1)
                      (\<lambda>filePath content w'.
                         if \<not> isSupportedFile filePath then (Inr (), w')
                         else createPageInChapter bookId (c_id chapter) filePath content
                                (basename filePath []) opts w') w1)) of
        (Inl e, w2) \<Rightarrow> (Inl e, w2)
      | (Inr u, w2) \<Rightarrow> importSubdirs json opts bookId dirPath items w2)"
| "importSubdirs json opts bookId dirPath (other # items) w =
     importSubdirs json opts bookId dirPath items w"

text \<open>\<open>ImportCommand.importDirectory\<close>: \<open>items\<close> is \<open>fs.readdir(dirPath)\<close>.  The rejection of
  \<open>updateBook\<close> is caught and dropped.  The progress bar is sized by \<open>countFiles\<close>.\<close>

definition importDirectory :: "(string \<Rightarrow> metadata option) \<Rightarrow> string \<Rightarrow> node list \<Rightarrow> options \<Rightarrow> world
    \<Rightarrow> (error + unit) \<times> world" where
  "importDirectory json dirPath items opts w =
     (let bookMeta = readBookMetadata json items;
          bookName = orElse (book opts) (orElse (m_name bookMeta) (basename dirPath []))
      in
      case onRemote (getTargetBook bookName (dryRun opts)) w of
        (Inl e, w1) \<Rightarrow> (Inl e, w1)
      | (Inr targetBook, w1) \<Rightarrow>
          (let w2 = (if \<not> dryRun opts \<and> truthy (m_description bookMeta)
                     then snd (onRemote (updateBook (b_id targetBook) (the (m_description bookMeta))) w1)
                     else w1)
           in
           case importRootFiles opts (b_id targetBook) dirPath items w2 of
             (Inl e, w3) \<Rightarrow> (Inl e, w3)
           | (Inr u, w3) \<Rightarrow> importSubdirs json opts (b_id targetBook) dirPath items w3))"

text \<open>\<open>ImportCommand.execute\<close>: \<open>fsys\<close> maps the resolved source path to what is there.\<close>

definition execute :: "(string \<Rightarrow> metadata option) \<Rightarrow> (string \<Rightarrow> node option) \<Rightarrow> string \<Rightarrow> options \<Rightarrow> world
    \<Rightarrow> (error + unit) \<times> world" where
  "execute json fsys sourcePath opts w =
     (case (if \<not> dryRun opts then
              (case onRemote testConnection w of
                 (Inl e, w') \<Rightarrow> (Inl e, w')
               | (Inr connected, w') \<Rightarrow>
                   if \<not> connected
                   then (Inl (Failure ''Failed to connect to BookStack. Please check your configuration.''), w')
                   else (Inr (), w'))
            else (Inr (), w)) of
        (Inl e, w1) \<Rightarrow> (Inl e, w1)
      | (Inr u, w1) \<Rightarrow>
          (case fsys sourcePath of
             None \<Rightarrow> (Inl (Failure (''Source path does not exist: '' @ sourcePath)), w1)
           | Some (File n content) \<Rightarrow> importFile sourcePath content opts w1
           | Some (Dir n items) \<Rightarrow> importDirectory json sourcePath items opts w1
           | Some (Special n) \<Rightarrow> (Inl (Failure ''Source must be a file or directory''), w1)))"

section \<open>Export mirror\<close>

text \<open>\<open>sanitize\<close> of the command line program (\<open>normalize("NFKD")\<close> leaves ASCII text as it is).\<close>

definition sanitizeKeep :: "char \<Rightarrow> bool" where
  "sanitizeKeep c = (isLower c \<or> isUpper c \<or> isDigit c \<or> c = CHR ''-'' \<or> c = CHR ''_''
                     \<or> c = CHR ''.'' \<or> isSpace c)"

definition sanitize :: "string \<Rightarrow> string" where
  "sanitize input =
     take 100 (toLowerCase
       (replaceAll False [Rep isSpace 1 None True False] (\<lambda>g. ''-'') None
          (trim (filter sanitizeKeep input))))"

text \<open>The decimal text of a number in a template literal.\<close>

fun showNat :: "nat \<Rightarrow> string" where
  "showNat n = (if n < 10 then [char_of (48 + n)] else showNat (n div 10) @ [char_of (48 + n mod 10)])"

declare showNat.simps [simp del]

text \<open>
  The content tree of the book that \<open>getBook\<close> returns: a page item, a chapter item with
  its pages (\<open>None\<close> when \<open>pages\<close> is not an array), or an item of another type.
\<close>

record pageItem =
  pi_id :: nat
  pi_slug :: "string option"
  pi_name :: string

datatype contentItem =
  PageItem pageItem
| ChapterItem nat "string option" string "pageItem list option"
| OtherItem

record exportOptions =
  dir :: "string option"
  fmtOption :: string
  dryRunExport :: bool

datatype fsOp = EnsureDir string | WriteFile string string

text \<open>The loop over pages of the \<open>export-contents\<close> action: the files counted, and the file
  system operations done, until \<open>exportPage\<close> is rejected.\<close>

fun exportPages :: "(nat \<Rightarrow> string \<Rightarrow> error + string) \<Rightarrow> bool \<Rightarrow> string \<Rightarrow> string \<Rightarrow> string
    \<Rightarrow> pageItem list \<Rightarrow> nat \<times> fsOp list \<Rightarrow> (error + unit) \<times> nat \<times> fsOp list" where
  "exportPages exportPage dry fmt ext outDir [] acc = (Inr (), acc)"
| "exportPages exportPage dry fmt ext outDir (p # ps) (files, ops) =
     (let filename = sanitize (orElse (pi_slug p) (pi_name p)) @ ''-'' @ showNat (pi_id p) @ ''.'' @ ext;
          outPath = join outDir filename
      in if dry then exportPages exportPage dry fmt ext outDir ps (files + 1, ops)
         else (case exportPage (pi_id p) fmt of
                 Inl e \<Rightarrow> (Inl e, files, ops)
               | Inr txt \<Rightarrow>
                   exportPages exportPage dry fmt ext outDir ps (files + 1, ops @ [WriteFile outPath txt])))"

fun exportChapters :: "(nat \<Rightarrow> string \<Rightarrow> error + string) \<Rightarrow> bool \<Rightarrow> string \<Rightarrow> string \<Rightarrow> string
    \<Rightarrow> contentItem list \<Rightarrow> nat \<times> fsOp list \<Rightarrow> (error + unit) \<times> nat \<times> fsOp list" where
  "exportChapters exportPage dry fmt ext outRoot [] acc = (Inr (), acc)"
| "exportChapters exportPage dry fmt ext outRoot (ChapterItem chId chSlug chName chPages # chs) (files, ops) =
     (let chDir = join outRoot (sanitize (orElse chSlug chName) @ ''-'' @ showNat chId);
          ops1 = (if dry then ops else ops @ [EnsureDir chDir])
      in case exportPages exportPage dry fmt ext chDir (case chPages of None \<Rightarrow> [] | Some ps \<Rightarrow> ps)
                (files, ops1) of
           (Inl e, acc') \<Rightarrow> (Inl e, acc')
         | (Inr u, acc') \<Rightarrow> exportChapters exportPage dry fmt ext outRoot chs acc')"
| "exportChapters exportPage dry fmt ext outRoot (other # chs) acc =
     exportChapters exportPage dry fmt ext outRoot chs acc"

definition isChapterItem :: "contentItem \<Rightarrow> bool" where
  "isChapterItem c = (case c of ChapterItem i sl n ps \<Rightarrow> True | _ \<Rightarrow> False)"

definition pageItemsOf :: "contentItem list \<Rightarrow> pageItem list" where
  "pageItemsOf contents = concat (map (\<lambda>c. case c of PageItem p \<Rightarrow> [p] | _ \<Rightarrow> []) contents)"

text \<open>
  The action of \<open>book export-contents\<close> after the book was fetched: \<open>bookId\<close> and \<open>slug\<close> are
  the id that was resolved and \<open>book.slug\<close>, \<open>contents\<close> is the book's content tree.  It
  gives the number of files reported and the file system operations done.
\<close>

definition exportContents :: "(nat \<Rightarrow> string \<Rightarrow> error + string) \<Rightarrow> nat \<Rightarrow> string option
    \<Rightarrow> contentItem list \<Rightarrow> exportOptions \<Rightarrow> (error + unit) \<times> nat \<times> fsOp list" where
  "exportContents exportPage bookId slug contents opts =
     (let slug' = orElse slug (''book-'' @ showNat bookId);
          outRoot = orElse (dir opts) (''./'' @ slug');
          fmt = toLowerCase (fmtOption opts)
      in if fmt \<notin> set [''markdown'', ''html'', ''plaintext'']
         then (Inl (Failure ''Invalid format. Use one of: markdown, html, plaintext''), 0, [])
         else
           (let ext = (if fmt = ''plaintext'' then ''txt'' else if fmt = ''markdown'' then ''md'' else ''html'');
                chapters' = filter isChapterItem contents;
                pages' = pageItemsOf contents;
                ops0 = (if dryRunExport opts then [] else [EnsureDir outRoot])
            in case exportPages exportPage (dryRunExport opts) fmt ext outRoot pages' (0, ops0) of
                 (Inl e, acc) \<Rightarrow> (Inl e, acc)
               | (Inr u, acc) \<Rightarrow> exportChapters exportPage (dryRunExport opts) fmt ext outRoot chapters' acc))"

section \<open>Notions used to state the properties\<close>

text \<open>Running a callback over a list of items, in order, until it is rejected.\<close>

fun forEach :: "('a \<Rightarrow> 's \<Rightarrow> (error + unit) \<times> 's) \<Rightarrow> 'a list \<Rightarrow> 's \<Rightarrow> (error + unit) \<times> 's" where
  "forEach f [] s = (Inr (), s)"
| "forEach f (x # xs) s =
     (case f x s of (Inl e, s') \<Rightarrow> (Inl e, s') | (Inr u, s') \<Rightarrow> forEach f xs s')"

text \<open>
  Every regular file below a directory, in the order of the walk, with the number of
  folders between the directory and the file, its path and its text.
\<close>

function located :: "string \<Rightarrow> node list \<Rightarrow> (nat \<times> string \<times> string) list" where
  "located current [] = []"
| "located current (Dir ent sub # entries) =
     map (apfst Suc) (located (join current ent) sub) @ located current entries"
| "located current (File ent content # entries) = (0, join current ent, content) # located current entries"
| "located current (Special ent # entries) = located current entries"
  by pat_completeness auto
termination
  by (relation "measure (\<lambda>(current, entries). size_list size entries)") auto

definition withinDepth :: "int \<Rightarrow> (nat \<times> string \<times> string) list \<Rightarrow> (string \<times> string) list" where
  "withinDepth d fs = map snd (filter (\<lambda>(k, p, c). int k \<le> d) fs)"

text \<open>The files directly inside a directory.\<close>

definition directFiles :: "string \<Rightarrow> node list \<Rightarrow> (string \<times> string) list" where
  "directFiles current entries =
     concat (map (\<lambda>e. case e of File n c \<Rightarrow> [(join current n, c)] | _ \<Rightarrow> []) entries)"

definition invocationPath :: "invocation \<Rightarrow> string" where
  "invocationPath i = (case i of InBook b p d \<Rightarrow> p | InChapter b ch p d \<Rightarrow> p)"

definition isInChapter :: "invocation \<Rightarrow> bool" where
  "isInChapter i = (case i of InBook b p d \<Rightarrow> False | InChapter b ch p d \<Rightarrow> True)"

text \<open>The paths for which a directory import with these options has to create a page: the
  supported files of the root, then for every first-level subdirectory the supported files
  the walk reaches.\<close>

definition plannedRoot :: "string \<Rightarrow> node list \<Rightarrow> string list" where
  "plannedRoot dirPath items =
     concat (map (\<lambda>e. case e of File n c \<Rightarrow> if isSupportedFile n then [join dirPath n] else [] | _ \<Rightarrow> []) items)"

definition plannedSubdirs :: "int \<Rightarrow> string \<Rightarrow> node list \<Rightarrow> string list" where
  "plannedSubdirs budget dirPath items =
     concat (map (\<lambda>e. case e of
                        Dir n sub \<Rightarrow>
                          filter isSupportedFile
                            (map fst (withinDepth (max 0 (budget - 1)) (located (join dirPath n) sub)))
                      | _ \<Rightarrow> []) items)"

definition planned :: "options \<Rightarrow> string \<Rightarrow> node list \<Rightarrow> string list" where
  "planned opts dirPath items =
     plannedRoot dirPath items @ plannedSubdirs (effectiveMaxDepth opts) dirPath items"

text \<open>The create and update methods of the client, and the pages sent.\<close>

definition isWrite :: "call \<Rightarrow> bool" where
  "isWrite c = (case c of
                  CreateBook n d \<Rightarrow> True | UpdateBook i d \<Rightarrow> True
                | CreateChapter b n d \<Rightarrow> True | CreatePage d \<Rightarrow> True | _ \<Rightarrow> False)"

definition isChapterCall :: "call \<Rightarrow> bool" where
  "isChapterCall c = (case c of CreateChapter b n d \<Rightarrow> True | GetChapters b \<Rightarrow> True | _ \<Rightarrow> False)"

definition createdPages :: "call list \<Rightarrow> pageData list" where
  "createdPages cs = concat (map (\<lambda>c. case c of CreatePage d \<Rightarrow> [d] | _ \<Rightarrow> []) cs)"

definition inChapterPage :: "pageRec \<Rightarrow> bool" where
  "inChapterPage pg = (pd_chapter_id (p_data pg) \<noteq> None)"

definition onlyDigits :: "string \<Rightarrow> bool" where
  "onlyDigits s = (s \<noteq> [] \<and> list_all isDigit s)"

definition nameMatches :: "string \<Rightarrow> bookRec \<Rightarrow> bool" where
  "nameMatches name b =
     (toLowerCase (b_name b) = toLowerCase name \<or> toLowerCase (b_slug b) = toLowerCase name)"

definition writtenFiles :: "fsOp list \<Rightarrow> string list" where
  "writtenFiles ops = concat (map (\<lambda>x. case x of WriteFile p t \<Rightarrow> [p] | _ \<Rightarrow> []) ops)"

text \<open>
  The description of \<open>deriveNameFromReadme\<close>, in its own words.  The lines of a text: a
  line ends at a line feed, and a carriage return just before that line feed belongs to
  the line end.  A heading line of a level is that number of hash signs, then white space,
  then a text that is not blank; its title is what follows the hash signs, trimmed.  The
  name of a text is the title of its first level-1 heading line if it has one, else of its
  first level-2, else of its first level-3 heading line, else its first line that is not
  blank, trimmed.  The name of a directory is the name of the first candidate, in the
  order of the list, that is a file of the directory and has a name.
\<close>

fun specLines :: "string \<Rightarrow> string list" where
  "specLines [] = [[]]"
| "specLines (c # cs) =
     (if c = LF then [] # specLines cs
      else if c = CR \<and> take 1 cs = [LF] then specLines cs
      else (case specLines cs of [] \<Rightarrow> [[c]] | l # ls \<Rightarrow> (c # l) # ls))"

definition specHeading :: "nat \<Rightarrow> string \<Rightarrow> string option" where
  "specHeading level l =
     (if take level l = replicate level CHR ''#''
         \<and> (case drop level l of [] \<Rightarrow> False | c # cs \<Rightarrow> isSpace c)
         \<and> \<not> list_all isSpace (drop level l)
      then Some (trim (drop level l)) else None)"

definition specFirstHeading :: "string \<Rightarrow> string option" where
  "specFirstHeading content =
     (case firstSome (specHeading 1) (specLines content) of
        Some t \<Rightarrow> Some t
      | None \<Rightarrow>
          (case firstSome (specHeading 2) (specLines content) of
             Some t \<Rightarrow> Some t
           | None \<Rightarrow> firstSome (specHeading 3) (specLines content)))"

definition specFirstNonBlankLine :: "string \<Rightarrow> string option" where
  "specFirstNonBlankLine content = find (\<lambda>l. \<not> list_all isSpace l) (specLines content)"

definition specName :: "string \<Rightarrow> string option" where
  "specName content =
     (case specFirstHeading content of
        Some t \<Rightarrow> Some t
      | None \<Rightarrow> map_option trim (specFirstNonBlankLine content))"

definition specCandidate :: "node list \<Rightarrow> string \<Rightarrow> string option" where
  "specCandidate entries c =
     (case lookupEntry c entries of
        Some (File n content) \<Rightarrow> specName content
      | _ \<Rightarrow> None)"

definition specDeriveName :: "node list \<Rightarrow> string option" where
  "specDeriveName entries =
     firstSome (specCandidate entries) [''README.md'', ''Readme.md'', ''readme.md'', ''index.md'']"

text \<open>
  The texts on which the regular expressions of the source read lines and headings as the
  description does: every character is ASCII, no carriage return stands anywhere but just
  before a line feed, and no line is a bare marker, one to three hash signs followed by
  nothing but white space.  A candidate is plain when it is absent, or a file with such a
  text.
\<close>

definition isAscii :: "char \<Rightarrow> bool" where
  "isAscii c = ((of_char c :: nat) < 128)"

fun loneCR :: "string \<Rightarrow> bool" where
  "loneCR [] = False"
| "loneCR (c # cs) = ((c = CR \<and> take 1 cs \<noteq> [LF]) \<or> loneCR cs)"

definition bareMarker :: "string \<Rightarrow> bool" where
  "bareMarker l =
     (let h = length (takeWhile (\<lambda>c. c = CHR ''#'') l)
      in 1 \<le> h \<and> h \<le> 3 \<and> list_all isSpace (drop h l))"

definition plainText :: "string \<Rightarrow> bool" where
  "plainText content =
     (list_all isAscii content \<and> \<not> loneCR content
      \<and> list_all (\<lambda>l. \<not> bareMarker l) (specLines content))"

definition plainCandidate :: "node list \<Rightarrow> string \<Rightarrow> bool" where
  "plainCandidate entries c =
     (case lookupEntry c entries of
        None \<Rightarrow> True
      | Some (File n content) \<Rightarrow> plainText content
      | Some other \<Rightarrow> False)"

text \<open>A candidate that is there and cannot be read as a file.\<close>

definition unreadable :: "node list \<Rightarrow> string \<Rightarrow> bool" where
  "unreadable entries c =
     (case lookupEntry c entries of Some (Dir n es) \<Rightarrow> True | Some (Special n) \<Rightarrow> True | _ \<Rightarrow> False)"

text \<open>
  \<open>emits m plan\<close>: from every state, the step \<open>m\<close> invokes the page creation for the paths of
  \<open>plan\<close>, in order; all of them when it returns, a first part of them when it is rejected.
  \<open>keeps q m\<close>: the step \<open>m\<close> leaves the observation \<open>q\<close> of the state as it is.
\<close>

definition emits :: "(world \<Rightarrow> (error + unit) \<times> world) \<Rightarrow> string list \<Rightarrow> bool" where
  "emits m plan =
     (\<forall>w. \<exists>new rest. invoked (snd (m w)) = invoked w @ new
                     \<and> plan = map invocationPath new @ rest
                     \<and> (fst (m w) = Inr () \<longrightarrow> rest = []))"

definition keeps :: "('s \<Rightarrow> 'q) \<Rightarrow> ('s \<Rightarrow> 'a \<times> 's) \<Rightarrow> bool" where
  "keeps q m = (\<forall>s. q (snd (m s)) = q s)"

text \<open>What a state shows of chapters: the chapter calls made, the chapters stored, the
  invocations of \<open>createPageInChapter\<close> and the pages stored inside a chapter.\<close>

definition remoteChapterView :: "remote \<Rightarrow> call list \<times> chapterRec list \<times> pageRec list" where
  "remoteChapterView r = (filter isChapterCall (calls r), chapters r, filter inChapterPage (pages r))"

definition chapterView :: "world \<Rightarrow> (call list \<times> chapterRec list \<times> pageRec list) \<times> invocation list" where
  "chapterView w = (remoteChapterView (store w), filter isInChapter (invoked w))"

text \<open>
  The page that an invocation sends outside a dry run: its book, its chapter and its
  name; and the same of a page sent.  A state is \<open>aligned\<close> when the \<open>createPage\<close> requests
  made so far are those of the invocations made so far, one for each and in their order.
\<close>

definition sentPage :: "invocation \<Rightarrow> nat \<times> nat option \<times> string" where
  "sentPage i =
     (case i of
        InBook b p d \<Rightarrow> (b, None, basename d (extname d))
      | InChapter b ch p d \<Rightarrow> (b, Some ch, basename d (extname d)))"

definition pageKey :: "pageData \<Rightarrow> nat \<times> nat option \<times> string" where
  "pageKey d = (pd_book_id d, pd_chapter_id d, pd_name d)"

definition aligned :: "world \<Rightarrow> bool" where
  "aligned w = (map sentPage (invoked w) = map pageKey (createdPages (calls (store w))))"


text \<open>
  \<open>completes p m q\<close>: from every state with \<open>p\<close> the step \<open>m\<close> returns, and \<open>q\<close> holds of its
  result and the state it leaves.  \<open>pageReady\<close>: a page of this book (and chapter) can be
  created, because the run is a dry run or the transport does not fail and the book (and
  the chapter) is in the store.  \<open>namesResolve\<close>: the chapter name of every first-level
  subdirectory can be worked out without reading a directory as a readme.
\<close>

definition completes :: "('s \<Rightarrow> bool) \<Rightarrow> ('s \<Rightarrow> (error + 'a) \<times> 's) \<Rightarrow> ('a \<Rightarrow> 's \<Rightarrow> bool) \<Rightarrow> bool" where
  "completes p m q = (\<forall>s. p s \<longrightarrow> (case m s of (Inl e, s') \<Rightarrow> False | (Inr x, s') \<Rightarrow> q x s'))"

definition pageReady :: "options \<Rightarrow> nat \<Rightarrow> nat option \<Rightarrow> world \<Rightarrow> bool" where
  "pageReady opts bookId chapterId w =
     (dryRun opts \<or>
      (faults (store w) = []
       \<and> find (\<lambda>b. b_id b = bookId) (books (store w)) \<noteq> None
       \<and> (case chapterId of
             None \<Rightarrow> True
           | Some ch \<Rightarrow> find (\<lambda>c. c_id c = ch) (chapters (store w)) \<noteq> None)))"

definition namesResolve :: "(string \<Rightarrow> metadata option) \<Rightarrow> options \<Rightarrow> node list \<Rightarrow> bool" where
  "namesResolve json opts items =
     list_all (\<lambda>e. case e of
                      Dir n entries \<Rightarrow>
                        truthy (m_name (readChapterMetadata json entries))
                        \<or> orElse (chapterFrom opts) ''dir'' \<noteq> ''readme''
                        \<or> list_all (\<lambda>c. \<not> unreadable entries c)
                             [''README.md'', ''Readme.md'', ''readme.md'', ''index.md'']
                    | _ \<Rightarrow> True) items"

section \<open>Example inputs\<close>

text \<open>
  The directory \<open>examples\<close> of the scenarios: \<open>readme.md\<close>, an unsupported file, and the
  subdirectory \<open>Intro\<close> with its metadata file, \<open>page1.md\<close> and a nested folder \<open>deep\<close> that
  holds \<open>d.md\<close> and the folder \<open>deeper\<close> with \<open>e.txt\<close>.  \<open>exJson\<close> parses the one metadata text
  used.  \<open>exRemote\<close> is an empty store with a transport that never fails.
\<close>

definition exMetaText :: string where
  "exMetaText = ''{'' @ [CHR 0x22] @ ''name'' @ [CHR 0x22] @ '':'' @ [CHR 0x22] @ ''Introduction'' @ [CHR 0x22] @ ''}''"

definition exTree :: "node list" where
  "exTree =
     [File ''readme.md'' ''# Hi'',
      Dir ''Intro''
        [File ''.chapter-metadata.json'' exMetaText,
         File ''page1.md'' ''p1'',
         Dir ''deep'' [File ''d.md'' ''x'', Dir ''deeper'' [File ''e.txt'' ''y'']]],
      File ''logo.png'' []]"

definition exJson :: "string \<Rightarrow> metadata option" where
  "exJson txt =
     (if txt = exMetaText
      then Some \<lparr>m_name = Some ''Introduction'', m_description = None\<rparr>
      else None)"

definition exFs :: "string \<Rightarrow> node option" where
  "exFs p = (if p = ''/work/examples'' then Some (Dir ''examples'' exTree) else None)"

definition exRemote :: remote where
  "exRemote = \<lparr>books = [], chapters = [], pages = [], next_id = 1, slugOf = mockSlug,
               calls = [], faults = []\<rparr>"

definition exWorld :: world where
  "exWorld = \<lparr>store = exRemote, invoked = []\<rparr>"

definition exOpts :: options where
  "exOpts = \<lparr>book = Some ''Sample'', format = None, dryRun = False, maxDepth = None,
             chapterFrom = None, flatten = False\<rparr>"

text \<open>
  A chapter directory whose \<open>README.md\<close> holds only blanks and whose \<open>index.md\<close> has a level-2
  heading before a level-1 heading; and a store with one book, named \<open>42\<close>, under the id 7.
\<close>

definition exReadmeDir :: "node list" where
  "exReadmeDir =
     [File ''README.md'' ''  '',
      File ''page1.md'' ''p1'',
      File ''index.md'' (''## Sub first'' @ [LF] @ ''# Title'' @ [LF] @ ''body'')]"

definition exBook :: bookRec where
  "exBook = \<lparr>b_id = 7, b_name = ''42'', b_slug = ''forty-two'', b_description = None\<rparr>"

definition exStore :: remote where
  "exStore = \<lparr>books = [exBook], chapters = [], pages = [], next_id = 8, slugOf = mockSlug,
              calls = [], faults = []\<rparr>"

section \<open>The walk as a list of files\<close>

lemma forEach_append:
  "forEach f (xs @ ys) s =
     (case forEach f xs s of (Inl e, s') \<Rightarrow> (Inl e, s') | (Inr u, s') \<Rightarrow> forEach f ys s')"
  by (induction xs arbitrary: s) (auto split: prod.splits sum.splits)

lemma withinDepth_Nil [simp]: "withinDepth d [] = []"
  by (simp add: withinDepth_def)

lemma withinDepth_append [simp]: "withinDepth d (xs @ ys) = withinDepth d xs @ withinDepth d ys"
  by (simp add: withinDepth_def)

lemma withinDepth_Cons0 [simp]: "0 \<le> d \<Longrightarrow> withinDepth d ((0, p, c) # xs) = (p, c) # withinDepth d xs"
  by (simp add: withinDepth_def)

lemma withinDepth_Suc:
  "withinDepth d (map (apfst Suc) xs) = withinDepth (d - 1) xs"
  by (induction xs) (auto simp: withinDepth_def)

lemma withinDepth_Suc_0 [simp]:
  "withinDepth 0 (map (apfst Suc) xs) = []"
  by (induction xs) (auto simp: withinDepth_def)

lemma walk_forEach:
  "0 \<le> d \<Longrightarrow> walk onFile cur es d s = forEach (\<lambda>(p, c). onFile p c) (withinDepth d (located cur es)) s"
proof (induction onFile cur es d s rule: walk.induct)
  case (1 onFile current currentDepth s)
  then show ?case by simp
next
  case (2 onFile current ent sub entries currentDepth s)
  show ?case
  proof (cases "currentDepth > 0")
    case True
    with 2 show ?thesis
      by (auto simp: forEach_append withinDepth_Suc split: prod.splits sum.splits)
  next
    case False
    with 2 have "currentDepth = 0" by simp
    with 2 show ?thesis by simp
  qed
next
  case (3 onFile current ent content entries currentDepth s)
  then show ?case by (auto split: prod.splits sum.splits)
next
  case (4 onFile current ent entries currentDepth s)
  then show ?case by simp
qed

lemma withinDepth_0_located: "withinDepth 0 (located cur es) = directFiles cur es"
proof (induction cur es rule: located.induct)
  case (1 current)
  then show ?case by (simp add: directFiles_def)
next
  case (2 current ent sub entries)
  then show ?case by (simp add: directFiles_def)
next
  case (3 current ent content entries)
  then show ?case by (simp add: directFiles_def)
next
  case (4 current ent entries)
  then show ?case by (simp add: directFiles_def)
qed

lemma walkFiles_forEach:
  "walkFiles root entries depth onFile s
     = forEach (\<lambda>(p, c). onFile p c) (withinDepth (max 0 depth) (located root entries)) s"
  by (simp add: walkFiles_def walk_forEach)


section \<open>Page creations of a directory import\<close>

lemma emits_return: "emits (\<lambda>w. (Inr (), w)) []"
  by (simp add: emits_def)

lemma emits_fail: "emits (\<lambda>w. (Inl e, w)) plan"
  by (simp add: emits_def)

lemma emits_seq:
  assumes "emits m1 p1" and "emits m2 p2"
  shows "emits (\<lambda>w. case m1 w of (Inl e, w') \<Rightarrow> (Inl e, w') | (Inr u, w') \<Rightarrow> m2 w') (p1 @ p2)"
  unfolding emits_def
proof
  fix w
  obtain res1 w1 where m1: "m1 w = (res1, w1)" by (cases "m1 w")
  from assms(1) obtain new1 rest1 where 1: "invoked w1 = invoked w @ new1"
      "p1 = map invocationPath new1 @ rest1" "res1 = Inr () \<longrightarrow> rest1 = []"
    using m1 unfolding emits_def by (metis fst_conv snd_conv)
  show "\<exists>new rest. invoked (snd (case m1 w of (Inl e, w') \<Rightarrow> (Inl e, w') | (Inr u, w') \<Rightarrow> m2 w')) = invoked w @ new \<and>
          p1 @ p2 = map invocationPath new @ rest \<and>
          (fst (case m1 w of (Inl e, w') \<Rightarrow> (Inl e, w') | (Inr u, w') \<Rightarrow> m2 w') = Inr () \<longrightarrow> rest = [])"
  proof (cases res1)
    case (Inl e)
    with m1 1 show ?thesis by auto
  next
    case (Inr u)
    obtain res2 w2 where m2: "m2 w1 = (res2, w2)" by (cases "m2 w1")
    from assms(2) obtain new2 rest2 where 2: "invoked w2 = invoked w1 @ new2"
        "p2 = map invocationPath new2 @ rest2" "res2 = Inr () \<longrightarrow> rest2 = []"
      using m2 unfolding emits_def by (metis fst_conv snd_conv)
    from Inr 1 have "rest1 = []" by simp
    with Inr m1 m2 1 2 show ?thesis
      by (intro exI[of _ "new1 @ new2"] exI[of _ rest2]) auto
  qed
qed

lemma emits_bind_keeps:
  assumes "keeps invoked m" and "\<And>x. emits (k x) plan"
  shows "emits (\<lambda>w. case m w of (Inl e, w') \<Rightarrow> (Inl e, w') | (Inr x, w') \<Rightarrow> k x w') plan"
  unfolding emits_def
proof
  fix w
  obtain res1 w1 where m1: "m w = (res1, w1)" by (cases "m w")
  with assms(1) have inv: "invoked w1 = invoked w" unfolding keeps_def by (metis snd_conv)
  show "\<exists>new rest. invoked (snd (case m w of (Inl e, w') \<Rightarrow> (Inl e, w') | (Inr x, w') \<Rightarrow> k x w')) = invoked w @ new \<and>
          plan = map invocationPath new @ rest \<and>
          (fst (case m w of (Inl e, w') \<Rightarrow> (Inl e, w') | (Inr x, w') \<Rightarrow> k x w') = Inr () \<longrightarrow> rest = [])"
  proof (cases res1)
    case (Inl e)
    with m1 inv show ?thesis by auto
  next
    case (Inr x)
    from assms(2)[of x] obtain new rest where "invoked (snd (k x w1)) = invoked w1 @ new"
        "plan = map invocationPath new @ rest" "fst (k x w1) = Inr () \<longrightarrow> rest = []"
      unfolding emits_def by blast
    with Inr m1 inv show ?thesis by auto
  qed
qed

lemma keeps_onRemote_invoked: "keeps invoked (onRemote f)"
  by (simp add: keeps_def onRemote_def split: prod.splits)

lemma emits_createPageInBook: "emits (createPageInBook bookId filePath content displayName opts) [filePath]"
  unfolding emits_def
proof
  fix w
  show "\<exists>new rest. invoked (snd (createPageInBook bookId filePath content displayName opts w)) = invoked w @ new \<and>
          [filePath] = map invocationPath new @ rest \<and>
          (fst (createPageInBook bookId filePath content displayName opts w) = Inr () \<longrightarrow> rest = [])"
    by (intro exI[of _ "[InBook bookId filePath displayName]"] exI[of _ "[]"])
       (auto simp: createPageInBook_def Let_def onRemote_def invocationPath_def split: prod.splits sum.splits)
qed

lemma emits_createPageInChapter:
  "emits (createPageInChapter bookId chapterId filePath content displayName opts) [filePath]"
  unfolding emits_def
proof
  fix w
  show "\<exists>new rest. invoked (snd (createPageInChapter bookId chapterId filePath content displayName opts w)) = invoked w @ new \<and>
          [filePath] = map invocationPath new @ rest \<and>
          (fst (createPageInChapter bookId chapterId filePath content displayName opts w) = Inr () \<longrightarrow> rest = [])"
    by (intro exI[of _ "[InChapter bookId chapterId filePath displayName]"] exI[of _ "[]"])
       (auto simp: createPageInChapter_def Let_def onRemote_def invocationPath_def split: prod.splits sum.splits)
qed

lemma emits_forEach:
  assumes "\<And>x. emits (cb x) (plan x)"
  shows "emits (forEach cb xs) (concat (map plan xs))"
proof (induction xs)
  case Nil
  have "forEach cb [] = (\<lambda>w. (Inr (), w))" by (rule ext) simp
  then show ?case by (simp add: emits_return)
next
  case (Cons x xs)
  have "forEach cb (x # xs) = (\<lambda>w. case cb x w of (Inl e, w') \<Rightarrow> (Inl e, w') | (Inr u, w') \<Rightarrow> forEach cb xs w')"
    by (rule ext) simp
  with emits_seq[OF assms[of x] Cons] show ?case by simp
qed

lemma emits_walkFiles:
  assumes "\<And>p c. emits (onFile p c) (if isSupportedFile p then [p] else [])"
  shows "emits (walkFiles root entries depth onFile)
           (filter isSupportedFile (map fst (withinDepth (max 0 depth) (located root entries))))"
proof -
  have eq: "walkFiles root entries depth onFile
          = forEach (\<lambda>(p, c). onFile p c) (withinDepth (max 0 depth) (located root entries))"
    by (rule ext) (simp add: walkFiles_forEach)
  have "\<And>x. emits ((\<lambda>(p, c). onFile p c) x) ((\<lambda>(p, c). if isSupportedFile p then [p] else []) x)"
    using assms by (simp add: split_beta)
  from emits_forEach[of "\<lambda>(p, c). onFile p c" "\<lambda>(p, c). if isSupportedFile p then [p] else []", OF this]
  have "emits (forEach (\<lambda>(p, c). onFile p c) (withinDepth (max 0 depth) (located root entries)))
          (concat (map (\<lambda>(p, c). if isSupportedFile p then [p] else []) (withinDepth (max 0 depth) (located root entries))))" .
  moreover have "\<And>xs :: (string \<times> string) list. concat (map (\<lambda>(p, c). if isSupportedFile p then [p] else []) xs)
        = filter isSupportedFile (map fst xs)"
  proof -
    fix xs :: "(string \<times> string) list"
    show "concat (map (\<lambda>(p, c). if isSupportedFile p then [p] else []) xs) = filter isSupportedFile (map fst xs)"
      by (induction xs) auto
  qed
  ultimately show ?thesis by (simp add: eq)
qed

lemma emits_flat_callback:
  "emits (\<lambda>w'. if \<not> isSupportedFile p then (Inr (), w')
                else createPageInBook bookId p c (basename p []) opts w')
         (if isSupportedFile p then [p] else [])"
  by (simp add: emits_return emits_createPageInBook)

lemma emits_chapter_callback:
  "emits (\<lambda>w'. if \<not> isSupportedFile p then (Inr (), w')
                else createPageInChapter bookId chId p c (basename p []) opts w')
         (if isSupportedFile p then [p] else [])"
  by (simp add: emits_return emits_createPageInChapter)

lemma emits_importRootFiles:
  "emits (importRootFiles opts bookId dirPath items) (plannedRoot dirPath items)"
proof (induction items)
  case Nil
  have "importRootFiles opts bookId dirPath [] = (\<lambda>w. (Inr (), w))" by (rule ext) simp
  then show ?case by (simp add: plannedRoot_def emits_return)
next
  case (Cons item items)
  have tail: "plannedRoot dirPath (item # items)
      = (case item of File n c \<Rightarrow> if isSupportedFile n then [join dirPath n] else [] | _ \<Rightarrow> [])
        @ plannedRoot dirPath items"
    by (simp add: plannedRoot_def)
  show ?case
  proof (cases item)
    case (File n c)
    show ?thesis
    proof (cases "isSupportedFile n")
      case True
      have "importRootFiles opts bookId dirPath (item # items)
          = (\<lambda>w. case createPageInBook bookId (join dirPath n) c n opts w of
                     (Inl e, w') \<Rightarrow> (Inl e, w')
                   | (Inr u, w') \<Rightarrow> importRootFiles opts bookId dirPath items w')"
        using File True by (intro ext) simp
      with emits_seq[OF emits_createPageInBook Cons] tail File True show ?thesis by simp
    next
      case False
      have "importRootFiles opts bookId dirPath (item # items) = importRootFiles opts bookId dirPath items"
        using File False by (intro ext) simp
      with Cons tail File False show ?thesis by simp
    qed
  next
    case (Dir n es)
    have "importRootFiles opts bookId dirPath (item # items) = importRootFiles opts bookId dirPath items"
      using Dir by (intro ext) simp
    with Cons tail Dir show ?thesis by simp
  next
    case (Special n)
    have "importRootFiles opts bookId dirPath (item # items) = importRootFiles opts bookId dirPath items"
      using Special by (intro ext) simp
    with Cons tail Special show ?thesis by simp
  qed
qed

lemma emits_subdir_step:
  "emits (\<lambda>w. if flatten opts then
           walkFiles itemPath entries (budget - 1)
             (\<lambda>filePath content w'.
                if \<not> isSupportedFile filePath then (Inr (), w')
                else createPageInBook bookId filePath content (basename filePath []) opts w') w
         else
           case chapterNameOf meta chFrom item entries of
             Inl e \<Rightarrow> (Inl e, w)
           | Inr chapterName \<Rightarrow>
               (case onRemote (getOrCreateChapter bookId chapterName descr (dryRun opts)) w of
                  (Inl e, w1) \<Rightarrow> (Inl e, w1)
                | (Inr chapter, w1) \<Rightarrow>
                    walkFiles itemPath entries (budget - 1)
                      (\<lambda>filePath content w'.
                         if \<not> isSupportedFile filePath then (Inr (), w')
                         else createPageInChapter bookId (c_id chapter) filePath content
                                (basename filePath []) opts w') w1))
      (filter isSupportedFile (map fst (withinDepth (max 0 (budget - 1)) (located itemPath entries))))"
  (is "emits ?m ?plan")
proof (cases "flatten opts")
  case True
  then have "?m = walkFiles itemPath entries (budget - 1)
             (\<lambda>filePath content w'.
                if \<not> isSupportedFile filePath then (Inr (), w')
                else createPageInBook bookId filePath content (basename filePath []) opts w')"
    by (intro ext) simp
  then show ?thesis
    using emits_walkFiles[of "\<lambda>filePath content w'.
                if \<not> isSupportedFile filePath then (Inr (), w')
                else createPageInBook bookId filePath content (basename filePath []) opts w'",
                OF emits_flat_callback] by simp
next
  case False
  show ?thesis
  proof (cases "chapterNameOf meta chFrom item entries")
    case (Inl e)
    with False have "?m = (\<lambda>w. (Inl e, w))" by (intro ext) simp
    then show ?thesis by (simp add: emits_fail)
  next
    case (Inr chapterName)
    with False have "?m = (\<lambda>w. case onRemote (getOrCreateChapter bookId chapterName descr (dryRun opts)) w of
                  (Inl e, w1) \<Rightarrow> (Inl e, w1)
                | (Inr chapter, w1) \<Rightarrow>
                    walkFiles itemPath entries (budget - 1)
                      (\<lambda>filePath content w'.
                         if \<not> isSupportedFile filePath then (Inr (), w')
                         else createPageInChapter bookId (c_id chapter) filePath content
                                (basename filePath []) opts w') w1)"
      by (intro ext) simp
    moreover have A: "\<And>chapter. emits (walkFiles itemPath entries (budget - 1)
                      (\<lambda>filePath content w'.
                         if \<not> isSupportedFile filePath then (Inr (), w')
                         else createPageInChapter bookId (c_id chapter) filePath content
                                (basename filePath []) opts w')) ?plan"
      by (rule emits_walkFiles) (rule emits_chapter_callback)
    note emits_bind_keeps[OF keeps_onRemote_invoked A]
    ultimately show ?thesis by simp
  qed
qed

lemma emits_importSubdirs:
  "emits (importSubdirs json opts bookId dirPath items)
         (plannedSubdirs (effectiveMaxDepth opts) dirPath items)"
proof (induction items)
  case Nil
  have "importSubdirs json opts bookId dirPath [] = (\<lambda>w. (Inr (), w))" by (rule ext) simp
  then show ?case by (simp add: plannedSubdirs_def emits_return)
next
  case (Cons item items)
  show ?case
  proof (cases item)
    case (File n c)
    have "importSubdirs json opts bookId dirPath (item # items) = importSubdirs json opts bookId dirPath items"
      using File by (intro ext) simp
    with Cons File show ?thesis by (simp add: plannedSubdirs_def)
  next
    case (Special n)
    have "importSubdirs json opts bookId dirPath (item # items) = importSubdirs json opts bookId dirPath items"
      using Special by (intro ext) simp
    with Cons Special show ?thesis by (simp add: plannedSubdirs_def)
  next
    case (Dir n entries)
    have plan: "plannedSubdirs (effectiveMaxDepth opts) dirPath (item # items)
        = filter isSupportedFile
            (map fst (withinDepth (max 0 (effectiveMaxDepth opts - 1)) (located (join dirPath n) entries)))
          @ plannedSubdirs (effectiveMaxDepth opts) dirPath items"
      using Dir by (simp add: plannedSubdirs_def)
    have "importSubdirs json opts bookId dirPath (item # items)
       = (\<lambda>w. case (if flatten opts then
           walkFiles (join dirPath n) entries (effectiveMaxDepth opts - 1)
             (\<lambda>filePath content w'.
                if \<not> isSupportedFile filePath then (Inr (), w')
                else createPageInBook bookId filePath content (basename filePath []) opts w') w
         else
           case chapterNameOf (readChapterMetadata json entries) (orElse (chapterFrom opts) ''dir'') n entries of
             Inl e \<Rightarrow> (Inl e, w)
           | Inr chapterName \<Rightarrow>
               (case onRemote (getOrCreateChapter bookId chapterName
                       (orElse (m_description (readChapterMetadata json entries)) []) (dryRun opts)) w of
                  (Inl e, w1) \<Rightarrow> (Inl e, w1)
                | (Inr chapter, w1) \<Rightarrow>
                    walkFiles (join dirPath n) entries (effectiveMaxDepth opts - 1)
                      (\<lambda>filePath content w'.
                         if \<not> isSupportedFile filePath then (Inr (), w')
                         else createPageInChapter bookId (c_id chapter) filePath content
                                (basename filePath []) opts w') w1)) of
              (Inl e, w2) \<Rightarrow> (Inl e, w2)
            | (Inr u, w2) \<Rightarrow> importSubdirs json opts bookId dirPath items w2)"
      using Dir by (intro ext) (simp add: Let_def)
    with emits_seq[OF emits_subdir_step Cons] plan show ?thesis by simp
  qed
qed

lemma emits_cong: "(\<And>w. m w = m' w) \<Longrightarrow> emits m' plan \<Longrightarrow> emits m plan"
  by (simp add: emits_def)

lemma emits_importDirectory:
  "emits (importDirectory json dirPath items opts) (planned opts dirPath items)"
proof -
  let ?bookMeta = "readBookMetadata json items"
  let ?bookName = "orElse (book opts) (orElse (m_name ?bookMeta) (basename dirPath []))"
  let ?body = "\<lambda>targetBook w. case importRootFiles opts (b_id targetBook) dirPath items w of
                 (Inl e, w3) \<Rightarrow> (Inl e, w3)
               | (Inr u, w3) \<Rightarrow> importSubdirs json opts (b_id targetBook) dirPath items w3"
  let ?upd = "\<lambda>targetBook w1. (Inr () :: error + unit,
             if \<not> dryRun opts \<and> truthy (m_description ?bookMeta)
             then snd (onRemote (updateBook (b_id targetBook) (the (m_description ?bookMeta))) w1)
             else w1)"
  let ?k = "\<lambda>targetBook w1. case ?upd targetBook w1 of (Inl e, w') \<Rightarrow> (Inl e, w')
            | (Inr x, w') \<Rightarrow> ?body targetBook w'"
  have step: "\<And>targetBook. emits (?body targetBook) (planned opts dirPath items)"
    unfolding planned_def by (rule emits_seq[OF emits_importRootFiles emits_importSubdirs])
  have kupd: "\<And>targetBook. keeps invoked (?upd targetBook)"
    by (simp add: keeps_def onRemote_def split: prod.splits)
  have k: "\<And>targetBook. emits (?k targetBook) (planned opts dirPath items)"
    by (rule emits_bind_keeps[OF kupd step])
  have all: "emits (\<lambda>w. case onRemote (getTargetBook ?bookName (dryRun opts)) w of
                (Inl e, w1) \<Rightarrow> (Inl e, w1)
              | (Inr targetBook, w1) \<Rightarrow> ?k targetBook w1) (planned opts dirPath items)"
    by (rule emits_bind_keeps[OF keeps_onRemote_invoked k])
  show ?thesis
    by (rule emits_cong[OF _ all]) (simp add: importDirectory_def Let_def split: prod.splits sum.splits)
qed

lemma forEach_count:
  "forEach (\<lambda>(p, c). (\<lambda>file content total. (Inr (), if isSupportedFile file then total + 1 else total)) p c) fs (t0 :: nat)
     = (Inr (), t0 + length (filter isSupportedFile (map fst fs)))"
  by (induction fs arbitrary: t0) (auto split: prod.splits)

lemma walkFiles_count:
  "snd (walkFiles root sub d (\<lambda>file content total. (Inr (), if isSupportedFile file then total + 1 else total)) (t0 :: nat))
     = t0 + length (filter isSupportedFile (map fst (withinDepth (max 0 d) (located root sub))))"
  by (simp only: walkFiles_forEach forEach_count snd_conv)

lemma count_root:
  "fold (\<lambda>item total. case item of File n c \<Rightarrow> if isSupportedFile n then total + 1 else total | _ \<Rightarrow> total) items (a :: nat)
     = a + length (plannedRoot dirPath items)"
proof (induction items arbitrary: a)
  case Nil
  then show ?case by (simp add: plannedRoot_def)
next
  case (Cons item items)
  have "plannedRoot dirPath (item # items)
      = (case item of File n c \<Rightarrow> if isSupportedFile n then [join dirPath n] else [] | _ \<Rightarrow> [])
        @ plannedRoot dirPath items"
    by (simp add: plannedRoot_def)
  with Cons show ?case by (cases item) auto
qed

lemma count_subdirs:
  "fold (\<lambda>item total. case item of
             Dir n sub \<Rightarrow>
               snd (walkFiles (join dirPath n) sub (budget - 1)
                      (\<lambda>file content total. (Inr (), if isSupportedFile file then total + 1 else total))
                      total)
           | _ \<Rightarrow> total) items (a :: nat)
     = a + length (plannedSubdirs budget dirPath items)"
proof (induction items arbitrary: a)
  case Nil
  then show ?case by (simp add: plannedSubdirs_def)
next
  case (Cons item items)
  have "plannedSubdirs budget dirPath (item # items)
      = (case item of Dir n sub \<Rightarrow> filter isSupportedFile
                            (map fst (withinDepth (max 0 (budget - 1)) (located (join dirPath n) sub)))
         | _ \<Rightarrow> [])
        @ plannedSubdirs budget dirPath items"
    by (simp add: plannedSubdirs_def)
  with Cons show ?case by (cases item) (simp_all add: walkFiles_count)
qed

lemma countFiles_planned: "countFiles dirPath items opts = length (planned opts dirPath items)"
  unfolding countFiles_def Let_def planned_def
  by (simp only: count_root[of _ 0 dirPath] count_subdirs length_append add_0)


section \<open>Steps that leave an observation unchanged\<close>

lemma keeps_cong: "(\<And>s. m s = m' s) \<Longrightarrow> keeps q m' \<Longrightarrow> keeps q m"
  by (simp add: keeps_def)

lemma keeps_return: "keeps q (\<lambda>s. (x, s))"
  by (simp add: keeps_def)

lemma keepsD: "keeps q m \<Longrightarrow> m s = (x, s') \<Longrightarrow> q s' = q s"
  unfolding keeps_def by (metis snd_conv)

lemma keeps_seq:
  assumes "keeps q m" and "\<And>x. keeps q (k x)"
  shows "keeps q (\<lambda>s. case m s of (Inl e, s') \<Rightarrow> (Inl e, s') | (Inr x, s') \<Rightarrow> k x s')"
  unfolding keeps_def
proof
  fix s
  obtain res s1 where m: "m s = (res, s1)" by (cases "m s")
  with assms(1) have 1: "q s1 = q s" by (rule keepsD)
  show "q (snd (case m s of (Inl e, s') \<Rightarrow> (Inl e, s') | (Inr x, s') \<Rightarrow> k x s')) = q s"
  proof (cases res)
    case (Inl e)
    with m 1 show ?thesis by simp
  next
    case (Inr x)
    from assms(2)[of x] have "q (snd (k x s1)) = q s1" by (simp add: keeps_def)
    with Inr m 1 show ?thesis by simp
  qed
qed

lemma keeps_forEach:
  assumes "\<And>x. keeps q (cb x)"
  shows "keeps q (forEach cb xs)"
proof (induction xs)
  case Nil
  show ?case by (rule keeps_cong[OF _ keeps_return[of q "Inr ()"]]) simp
next
  case (Cons x xs)
  show ?case
    by (rule keeps_cong[OF _ keeps_seq[OF assms[of x], of "\<lambda>u. forEach cb xs", OF Cons]]) simp
qed

lemma keeps_walkFiles:
  assumes "\<And>p c. keeps q (onFile p c)"
  shows "keeps q (walkFiles root entries depth onFile)"
proof -
  have "\<And>x. keeps q ((\<lambda>(p, c). onFile p c) x)" using assms by (simp add: split_beta)
  from keeps_forEach[of q "\<lambda>(p, c). onFile p c", OF this]
  show ?thesis by (rule keeps_cong[rotated]) (simp add: walkFiles_forEach)
qed

lemma keeps_onRemote:
  assumes "keeps qr f" and "\<And>w. q w = g (qr (store w)) (invoked w)"
  shows "keeps q (onRemote f)"
  using assms(1) by (simp add: keeps_def onRemote_def assms(2) split: prod.splits) (metis snd_conv)

text \<open>Dry run: the store is left as it is.\<close>

lemma dry_createPageInBook: "dryRun opts \<Longrightarrow> keeps store (createPageInBook b p c d opts)"
  by (simp add: keeps_def createPageInBook_def Let_def)

lemma dry_createPageInChapter: "dryRun opts \<Longrightarrow> keeps store (createPageInChapter b ch p c d opts)"
  by (simp add: keeps_def createPageInChapter_def Let_def)

lemma dry_getTargetBook: "keeps store (onRemote (getTargetBook name True))"
  by (simp add: keeps_def onRemote_def getTargetBook_def)

lemma dry_getOrCreateChapter: "keeps store (onRemote (getOrCreateChapter b name d True))"
  by (simp add: keeps_def onRemote_def getOrCreateChapter_def)

lemma dry_importFile: "dryRun opts \<Longrightarrow> keeps store (importFile filePath content opts)"
  by (simp add: keeps_def importFile_def Let_def onRemote_def getTargetBook_def)

lemma keeps_importRootFiles:
  assumes "\<And>b p c d. keeps q (createPageInBook b p c d opts)"
  shows "keeps q (importRootFiles opts bookId dirPath items)"
proof (induction items)
  case Nil
  show ?case by (rule keeps_cong[OF _ keeps_return[of q "Inr ()"]]) simp
next
  case (Cons item items)
  show ?case
  proof (cases item)
    case (File n c)
    show ?thesis
    proof (cases "isSupportedFile n")
      case True
      show ?thesis
        by (rule keeps_cong[OF _ keeps_seq[OF assms, of "\<lambda>u. importRootFiles opts bookId dirPath items", OF Cons]])
           (simp add: File True)
    next
      case False
      show ?thesis by (rule keeps_cong[OF _ Cons]) (simp add: File False)
    qed
  next
    case (Dir n es)
    show ?thesis by (rule keeps_cong[OF _ Cons]) (simp add: Dir)
  next
    case (Special n)
    show ?thesis by (rule keeps_cong[OF _ Cons]) (simp add: Special)
  qed
qed

lemma keeps_if_callback:
  assumes "keeps q m"
  shows "keeps q (\<lambda>w'. if \<not> isSupportedFile p then (Inr (), w') else m w')"
  using assms by (simp add: keeps_def)

lemma keeps_subdir_step:
  assumes pg: "\<And>b p c d. keeps q (createPageInBook b p c d opts)"
    and ch: "\<not> flatten opts \<Longrightarrow> (\<forall>b ch p c d. keeps q (createPageInChapter b ch p c d opts))
                \<and> (\<forall>b n d. keeps q (onRemote (getOrCreateChapter b n d (dryRun opts))))"
  shows "keeps q (\<lambda>w. if flatten opts then
           walkFiles itemPath entries (budget - 1)
             (\<lambda>filePath content w'.
                if \<not> isSupportedFile filePath then (Inr (), w')
                else createPageInBook bookId filePath content (basename filePath []) opts w') w
         else
           case chapterNameOf meta chFrom item entries of
             Inl e \<Rightarrow> (Inl e, w)
           | Inr chapterName \<Rightarrow>
               (case onRemote (getOrCreateChapter bookId chapterName descr (dryRun opts)) w of
                  (Inl e, w1) \<Rightarrow> (Inl e, w1)
                | (Inr chapter, w1) \<Rightarrow>
                    walkFiles itemPath entries (budget - 1)
                      (\<lambda>filePath content w'.
                         if \<not> isSupportedFile filePath then (Inr (), w')
                         else createPageInChapter bookId (c_id chapter) filePath content
                                (basename filePath []) opts w') w1))"
proof (cases "flatten opts")
  case True
  have "keeps q (walkFiles itemPath entries (budget - 1)
             (\<lambda>filePath content w'.
                if \<not> isSupportedFile filePath then (Inr (), w')
                else createPageInBook bookId filePath content (basename filePath []) opts w'))"
    by (rule keeps_walkFiles) (rule keeps_if_callback[OF pg])
  then show ?thesis by (rule keeps_cong[rotated]) (simp add: True)
next
  case False
  from ch[OF False] have c1: "\<And>b ch p c d. keeps q (createPageInChapter b ch p c d opts)"
    and c2: "\<And>b n d. keeps q (onRemote (getOrCreateChapter b n d (dryRun opts)))" by blast+
  show ?thesis
  proof (cases "chapterNameOf meta chFrom item entries")
    case (Inl e)
    show ?thesis by (rule keeps_cong[OF _ keeps_return[of q "Inl e"]]) (simp add: False Inl)
  next
    case (Inr chapterName)
    have A: "\<And>chapter. keeps q (walkFiles itemPath entries (budget - 1)
                      (\<lambda>filePath content w'.
                         if \<not> isSupportedFile filePath then (Inr (), w')
                         else createPageInChapter bookId (c_id chapter) filePath content
                                (basename filePath []) opts w'))"
      by (rule keeps_walkFiles) (rule keeps_if_callback[OF c1])
    show ?thesis
      by (rule keeps_cong[OF _ keeps_seq[OF c2 A]]) (simp add: False Inr)
  qed
qed

lemma keeps_importSubdirs:
  assumes pg: "\<And>b p c d. keeps q (createPageInBook b p c d opts)"
    and ch: "\<not> flatten opts \<Longrightarrow> (\<forall>b ch p c d. keeps q (createPageInChapter b ch p c d opts))
                \<and> (\<forall>b n d. keeps q (onRemote (getOrCreateChapter b n d (dryRun opts))))"
  shows "keeps q (importSubdirs json opts bookId dirPath items)"
proof (induction items)
  case Nil
  show ?case by (rule keeps_cong[OF _ keeps_return[of q "Inr ()"]]) simp
next
  case (Cons item items)
  show ?case
  proof (cases item)
    case (File n c)
    show ?thesis by (rule keeps_cong[OF _ Cons]) (simp add: File)
  next
    case (Special n)
    show ?thesis by (rule keeps_cong[OF _ Cons]) (simp add: Special)
  next
    case (Dir n entries)
    show ?thesis
      by (rule keeps_cong[OF _ keeps_seq[OF keeps_subdir_step[OF pg ch], of "\<lambda>u. importSubdirs json opts bookId dirPath items", OF _ Cons]])
         (simp_all add: Dir Let_def)
  qed
qed

lemma keeps_importDirectory:
  assumes pg: "\<And>b p c d. keeps q (createPageInBook b p c d opts)"
    and ch: "\<not> flatten opts \<Longrightarrow> (\<forall>b ch p c d. keeps q (createPageInChapter b ch p c d opts))
                \<and> (\<forall>b n d. keeps q (onRemote (getOrCreateChapter b n d (dryRun opts))))"
    and tb: "\<And>name. keeps q (onRemote (getTargetBook name (dryRun opts)))"
    and ub: "\<not> dryRun opts \<Longrightarrow> (\<forall>i d. keeps q (onRemote (updateBook i d)))"
  shows "keeps q (importDirectory json dirPath items opts)"
proof -
  let ?bookMeta = "readBookMetadata json items"
  let ?bookName = "orElse (book opts) (orElse (m_name ?bookMeta) (basename dirPath []))"
  let ?body = "\<lambda>targetBook w. case importRootFiles opts (b_id targetBook) dirPath items w of
                 (Inl e, w3) \<Rightarrow> (Inl e, w3)
               | (Inr u, w3) \<Rightarrow> importSubdirs json opts (b_id targetBook) dirPath items w3"
  let ?upd = "\<lambda>targetBook w1. (Inr () :: error + unit,
             if \<not> dryRun opts \<and> truthy (m_description ?bookMeta)
             then snd (onRemote (updateBook (b_id targetBook) (the (m_description ?bookMeta))) w1)
             else w1)"
  let ?k = "\<lambda>targetBook w1. case ?upd targetBook w1 of (Inl e, w') \<Rightarrow> (Inl e, w')
            | (Inr x, w') \<Rightarrow> ?body targetBook w'"
  have step: "\<And>targetBook. keeps q (?body targetBook)"
    by (rule keeps_seq[OF keeps_importRootFiles[OF pg] keeps_importSubdirs[OF pg ch]])
  have kupd: "\<And>targetBook. keeps q (?upd targetBook)"
  proof (cases "dryRun opts")
    case True
    then show "\<And>targetBook. keeps q (?upd targetBook)" by (simp add: keeps_def)
  next
    case False
    from ub[OF False] have "\<And>i d w. q (snd (onRemote (updateBook i d) w)) = q w"
      by (simp add: keeps_def)
    then show "\<And>targetBook. keeps q (?upd targetBook)" by (simp add: keeps_def)
  qed
  have k: "\<And>targetBook. keeps q (?k targetBook)"
    by (rule keeps_seq[OF kupd step])
  have all: "keeps q (\<lambda>w. case onRemote (getTargetBook ?bookName (dryRun opts)) w of
                (Inl e, w1) \<Rightarrow> (Inl e, w1)
              | (Inr targetBook, w1) \<Rightarrow> ?k targetBook w1)"
    by (rule keeps_seq[OF tb k])
  show ?thesis
    by (rule keeps_cong[OF _ all]) (simp add: importDirectory_def Let_def split: prod.splits sum.splits)
qed

lemma keeps_importFile:
  assumes tb: "\<And>name. keeps q (onRemote (getTargetBook name (dryRun opts)))"
    and cp: "\<not> dryRun opts \<Longrightarrow> (\<forall>d. pd_chapter_id d = None \<longrightarrow> keeps q (onRemote (createPage d)))"
  shows "keeps q (importFile filePath content opts)"
proof -
  let ?fileName = "basename filePath (extname filePath)"
  let ?pd = "\<lambda>targetBook. \<lparr>pd_book_id = b_id targetBook, pd_chapter_id = None, pd_name = ?fileName,
                           pd_html = convertToHtml content (orElse (format opts) ''markdown''),
                           pd_markdown = (if format opts = Some ''markdown'' then Some content else None)\<rparr>"
  let ?k = "\<lambda>targetBook w1. if dryRun opts then (Inr (), w1)
              else (case onRemote (createPage (?pd targetBook)) w1 of
                      (Inl e, w2) \<Rightarrow> (Inl e, w2)
                    | (Inr pg, w2) \<Rightarrow> (Inr (), w2))"
  have k: "\<And>targetBook. keeps q (?k targetBook)"
  proof (cases "dryRun opts")
    case True
    then show "\<And>targetBook. keeps q (?k targetBook)" by (simp add: keeps_def)
  next
    case False
    fix targetBook
    from cp[OF False] have "keeps q (onRemote (createPage (?pd targetBook)))" by simp
    from keeps_seq[OF this, of "\<lambda>pg w2. (Inr (), w2)", OF keeps_return]
    show "keeps q (?k targetBook)" by (rule keeps_cong[rotated]) (simp add: False)
  qed
  have all: "keeps q (\<lambda>w. case onRemote (getTargetBook (orElse (book opts) ?fileName) (dryRun opts)) w of
                (Inl e, w1) \<Rightarrow> (Inl e, w1)
              | (Inr targetBook, w1) \<Rightarrow> ?k targetBook w1)"
    by (rule keeps_seq[OF tb k])
  show ?thesis
    by (rule keeps_cong[OF _ all]) (simp add: importFile_def Let_def split: prod.splits sum.splits)
qed

lemma keeps_execute:
  assumes tc: "\<not> dryRun opts \<Longrightarrow> keeps q (onRemote testConnection)"
    and f: "\<And>content. keeps q (importFile sourcePath content opts)"
    and d: "\<And>items. keeps q (importDirectory json sourcePath items opts)"
  shows "keeps q (execute json fsys sourcePath opts)"
proof -
  let ?pre = "\<lambda>w. if \<not> dryRun opts then
              (case onRemote testConnection w of
                 (Inl e, w') \<Rightarrow> (Inl e, w')
               | (Inr connected, w') \<Rightarrow>
                   if \<not> connected
                   then (Inl (Failure ''Failed to connect to BookStack. Please check your configuration.''), w')
                   else (Inr (), w'))
            else (Inr (), w)"
  let ?rest = "\<lambda>u :: unit. \<lambda>w1. case fsys sourcePath of
             None \<Rightarrow> (Inl (Failure (''Source path does not exist: '' @ sourcePath)), w1)
           | Some (File n content) \<Rightarrow> importFile sourcePath content opts w1
           | Some (Dir n items) \<Rightarrow> importDirectory json sourcePath items opts w1
           | Some (Special n) \<Rightarrow> (Inl (Failure ''Source must be a file or directory''), w1)"
  have pre: "keeps q ?pre"
  proof (cases "dryRun opts")
    case True
    then show ?thesis by (simp add: keeps_def)
  next
    case False
    from tc[OF False] have "\<And>w. q (snd (onRemote testConnection w)) = q w" by (simp add: keeps_def)
    then show ?thesis using False
      by (auto simp: keeps_def split: prod.splits sum.splits) (metis snd_conv)+
  qed
  have rest: "\<And>u. keeps q (?rest u)"
    using f d by (auto simp: keeps_def split: option.splits node.splits)
  have all: "keeps q (\<lambda>w. case ?pre w of (Inl e, w1) \<Rightarrow> (Inl e, w1) | (Inr u, w1) \<Rightarrow> ?rest u w1)"
    by (rule keeps_seq[OF pre rest])
  show ?thesis
    by (rule keeps_cong[OF _ all]) (simp add: execute_def)
qed

lemma request_fields [simp]:
  "books (snd (request c r)) = books r" "chapters (snd (request c r)) = chapters r"
  "pages (snd (request c r)) = pages r" "next_id (snd (request c r)) = next_id r"
  "slugOf (snd (request c r)) = slugOf r" "faults (snd (request c r)) = faults r"
  "calls (snd (request c r)) = calls r @ [c]"
  by (simp_all add: request_def)

lemma view_testConnection: "keeps remoteChapterView testConnection"
  by (auto simp: keeps_def testConnection_def request_def remoteChapterView_def isChapterCall_def split: prod.splits)

lemma view_getBooks: "keeps remoteChapterView getBooks"
  by (auto simp: keeps_def getBooks_def request_def remoteChapterView_def isChapterCall_def split: prod.splits bool.splits)

lemma view_getBook: "keeps remoteChapterView (getBook n)"
  by (auto simp: keeps_def getBook_def request_def remoteChapterView_def isChapterCall_def
      split: prod.splits bool.splits option.splits)

lemma view_createBook: "keeps remoteChapterView (createBook name d)"
  by (auto simp: keeps_def createBook_def request_def remoteChapterView_def isChapterCall_def Let_def
      split: prod.splits bool.splits option.splits)

lemma view_updateBook: "keeps remoteChapterView (updateBook i d)"
  by (auto simp: keeps_def updateBook_def request_def remoteChapterView_def isChapterCall_def Let_def
      split: prod.splits bool.splits option.splits)

lemma view_createPage: "pd_chapter_id d = None \<Longrightarrow> keeps remoteChapterView (createPage d)"
  by (auto simp: keeps_def createPage_def request_def remoteChapterView_def isChapterCall_def Let_def
      inChapterPage_def split: prod.splits bool.splits option.splits)

lemma view_findBookByName: "keeps remoteChapterView (findBookByName name)"
  using view_getBooks
  by (auto simp: keeps_def findBookByName_def split: prod.splits sum.splits) (metis snd_conv)+

lemma view_getTargetBook: "keeps remoteChapterView (getTargetBook name dry)"
proof (cases dry)
  case True
  then show ?thesis by (simp add: keeps_def getTargetBook_def)
next
  case False
  let ?first = "\<lambda>r. (Inr (), if test False [Bol, Rep isDigit 1 None True False, Eol] name
                  then snd (getBook (parseInt name) r) else r) :: (error + unit) \<times> remote"
  have 1: "\<And>r. remoteChapterView (if test False [Bol, Rep isDigit 1 None True False, Eol] name
                  then snd (getBook (parseInt name) r) else r) = remoteChapterView r"
    using view_getBook by (simp add: keeps_def)
  have 2: "\<And>r. remoteChapterView (snd (findBookByName name r)) = remoteChapterView r"
    using view_findBookByName by (simp add: keeps_def)
  have 3: "\<And>r. remoteChapterView (snd (createBook name ''Book created by bookstack-cli import'' r)) = remoteChapterView r"
    using view_createBook by (simp add: keeps_def)
  show ?thesis
    unfolding keeps_def
  proof
    fix r
    show "remoteChapterView (snd (getTargetBook name dry r)) = remoteChapterView r"
      using False 1[of r] 2 3
      by (auto simp: getTargetBook_def split: prod.splits sum.splits option.splits if_splits)
         (metis snd_conv)+
  qed
qed

section \<open>Chapters in flatten mode\<close>

lemma view_onRemote: "keeps remoteChapterView f \<Longrightarrow> keeps chapterView (onRemote f)"
  by (rule keeps_onRemote[where g = "\<lambda>v i. (v, filter isInChapter i)"]) (simp_all add: chapterView_def)

lemma view_createPageInBook: "keeps chapterView (createPageInBook b p c d opts)"
  unfolding keeps_def
proof
  fix w :: world
  let ?w0 = "w\<lparr>invoked := invoked w @ [InBook b p d]\<rparr>"
  let ?pd = "\<lparr>pd_book_id = b, pd_chapter_id = None, pd_name = basename d (extname d),
              pd_html = convertToHtml c (orElse (format opts) (detectFormat p)),
              pd_markdown = (if orElse (format opts) (detectFormat p) = ''markdown'' then Some c else None)\<rparr>"
  have 0: "chapterView ?w0 = chapterView w"
    by (simp add: chapterView_def isInChapter_def)
  have "keeps chapterView (onRemote (createPage ?pd))"
    by (rule view_onRemote[OF view_createPage]) simp
  then have 1: "chapterView (snd (onRemote (createPage ?pd) ?w0)) = chapterView ?w0"
    by (simp add: keeps_def)
  have "snd (createPageInBook b p c d opts w)
          = (if dryRun opts then ?w0 else snd (onRemote (createPage ?pd) ?w0))"
    by (simp add: createPageInBook_def Let_def split: prod.splits sum.splits)
  with 0 1 show "chapterView (snd (createPageInBook b p c d opts w)) = chapterView w"
    by simp
qed

lemma flatten_keeps_chapterView:
  assumes "flatten opts"
  shows "keeps chapterView (execute json fsys sourcePath opts)"
proof -
  have ch: "\<not> flatten opts \<Longrightarrow> (\<forall>b ch p c d. keeps chapterView (createPageInChapter b ch p c d opts))
                \<and> (\<forall>b n d. keeps chapterView (onRemote (getOrCreateChapter b n d (dryRun opts))))"
    using assms by simp
  have tb: "\<And>name. keeps chapterView (onRemote (getTargetBook name (dryRun opts)))"
    by (rule view_onRemote[OF view_getTargetBook])
  have ub: "\<not> dryRun opts \<Longrightarrow> (\<forall>i d. keeps chapterView (onRemote (updateBook i d)))"
    using view_onRemote[OF view_updateBook] by simp
  have cp: "\<not> dryRun opts \<Longrightarrow> (\<forall>d. pd_chapter_id d = None \<longrightarrow> keeps chapterView (onRemote (createPage d)))"
    using view_onRemote[OF view_createPage] by simp
  have tc: "\<not> dryRun opts \<Longrightarrow> keeps chapterView (onRemote testConnection)"
    using view_onRemote[OF view_testConnection] by simp
  have d: "\<And>items. keeps chapterView (importDirectory json sourcePath items opts)"
    by (rule keeps_importDirectory[OF view_createPageInBook ch tb ub])
  have f: "\<And>content. keeps chapterView (importFile sourcePath content opts)"
    by (rule keeps_importFile[OF tb cp])
  show ?thesis by (rule keeps_execute[OF tc f d])
qed

section \<open>Plans within the budget\<close>


section \<open>Values of the export scenario\<close>

lemma sanitize_intro: "sanitize ''intro'' = ''intro''" by code_simp
lemma sanitize_ch_one: "sanitize ''ch-one'' = ''ch-one''" by code_simp
lemma sanitize_pg_a: "sanitize ''pg-a'' = ''pg-a''" by code_simp
lemma showNat_101: "showNat 101 = ''101''" by code_simp
lemma showNat_201: "showNat 201 = ''201''" by code_simp
lemma showNat_301: "showNat 301 = ''301''" by code_simp
lemma join_intro: "join ''./docbook'' ''intro-101.md'' = ''docbook/intro-101.md''" by code_simp
lemma join_ch_one: "join ''./docbook'' ''ch-one-201'' = ''docbook/ch-one-201''" by code_simp
lemma join_pg_a: "join ''docbook/ch-one-201'' ''pg-a-301.md'' = ''docbook/ch-one-201/pg-a-301.md''" by code_simp
lemma lower_markdown: "toLowerCase ''markdown'' = ''markdown''" by code_simp
lemma norm_intro: "normalize ''./docbook/intro-101.md'' = ''docbook/intro-101.md''" by code_simp
lemma norm_pg_a: "normalize ''./docbook/ch-one-201/pg-a-301.md'' = ''docbook/ch-one-201/pg-a-301.md''" by code_simp

section \<open>Calls of a page creation\<close>

lemma calls_onRemote: "store (snd (onRemote f w)) = snd (f (store w))"
  by (simp add: onRemote_def split: prod.splits)

lemma calls_createPage: "calls (snd (createPage d r)) = calls r @ [CreatePage d]"
  by (simp add: createPage_def request_def Let_def split: prod.splits bool.splits)

section \<open>Groups of the heading expressions\<close>

lemma firstSome_SomeD: "firstSome f xs = Some y \<Longrightarrow> \<exists>x \<in> set xs. f x = Some y"
  by (induction xs) (auto split: option.splits)

lemma search_SomeD:
  "search ml re prev s = Some (pre, caps, m, rest) \<Longrightarrow> \<exists>prev' s'. matchSeq ml re prev' s' = Some (caps, rest)"
proof (induction s arbitrary: prev pre)
  case Nil
  then show ?case by (auto split: option.splits)
next
  case (Cons c cs)
  show ?case
  proof (cases "matchSeq ml re prev (c # cs)")
    case None
    with Cons.prems obtain pre' where "search ml re (Some c) cs = Some (pre', caps, m, rest)"
      by (auto split: option.splits)
    from Cons.IH[OF this] show ?thesis .
  next
    case (Some r)
    with Cons.prems show ?thesis by (cases r) auto
  qed
qed

lemma matchSeq_RepD:
  assumes "matchSeq ml (Rep cls lo hi greedy cap # as) prev s = Some (caps, rest)"
  shows "\<exists>n caps'. lo \<le> n \<and> n \<le> length (takeWhile cls s)
            \<and> matchSeq ml as (prevAfter prev (take n s)) (drop n s) = Some (caps', rest)
            \<and> caps = (if cap then take n s # caps' else caps')"
proof -
  define most where "most = (case hi of None \<Rightarrow> length (takeWhile cls s) | Some h \<Rightarrow> min h (length (takeWhile cls s)))"
  define counts where "counts = (if greedy then rev [lo..<Suc most] else [lo..<Suc most])"
  define f where "f = (\<lambda>n. case matchSeq ml as (prevAfter prev (take n s)) (drop n s) of
             None \<Rightarrow> None
           | Some (caps, rest) \<Rightarrow> Some (if cap then take n s # caps else caps, rest))"
  have "matchSeq ml (Rep cls lo hi greedy cap # as) prev s = firstSome f counts"
    by (simp only: matchSeq.simps Let_def most_def counts_def f_def)
  with assms have "firstSome f counts = Some (caps, rest)" by simp
  from firstSome_SomeD[OF this] obtain n where n: "n \<in> set counts" and fn: "f n = Some (caps, rest)"
    by blast
  from n have "lo \<le> n" "n \<le> most" by (auto simp: counts_def split: if_splits)
  moreover have "most \<le> length (takeWhile cls s)" by (auto simp: most_def split: option.splits)
  moreover from fn obtain caps' where "matchSeq ml as (prevAfter prev (take n s)) (drop n s) = Some (caps', rest)"
      "caps = (if cap then take n s # caps' else caps')"
    by (auto simp: f_def split: option.splits)
  ultimately show ?thesis by (intro exI[of _ n] exI[of _ caps']) simp
qed

lemma deriveNameFrom_returns:
  assumes "\<forall>c \<in> set cands. \<not> unreadable entries c"
  shows "\<exists>r. deriveNameFrom cands entries = Inr r"
  using assms
proof (induction cands)
  case Nil
  then show ?case by simp
next
  case (Cons c cands)
  then obtain r where IH: "deriveNameFrom cands entries = Inr r" and c: "\<not> unreadable entries c"
    by auto
  show ?case
  proof (cases "lookupEntry c entries")
    case None
    with IH show ?thesis by simp
  next
    case (Some e)
    with c obtain n content where e: "e = File n content"
      by (cases e) (auto simp: unreadable_def)
    with Some IH show ?thesis by (cases "nameFromContent content") (simp_all add: readEntry_def)
  qed
qed

section \<open>The name of a readme, line by line\<close>

lemma LT_facts [simp]:
  "isLineTerminator LF" "isLineTerminator CR" "LF \<noteq> CHR ''#''" "CR \<noteq> CHR ''#''"
  "\<not> notLT LF" "\<not> notLT CR" "LF \<noteq> CR" "CR \<noteq> LF"
  by (simp_all add: isLineTerminator_def LF_def CR_def notLT_def)

lemma notLT_iff: "notLT c = (c \<noteq> LF \<and> c \<noteq> CR)"
  by (simp add: notLT_def isLineTerminator_def LF_def CR_def)

lemma matchSeq_hashes:
  "matchSeq ml (replicate k (Chr c) @ re) prev s =
     (if take k s = replicate k c then matchSeq ml re (if k = 0 then prev else Some c) (drop k s) else None)"
proof (induction k arbitrary: prev s)
  case 0
  then show ?case by simp
next
  case (Suc k)
  show ?case
  proof (cases s)
    case Nil
    then show ?thesis by simp
  next
    case (Cons x xs)
    then show ?thesis using Suc[of "Some x" xs] by auto
  qed
qed

lemma Rep_greedy_first:
  assumes "lo \<le> length (takeWhile cls s)"
    and "matchSeq ml as (prevAfter prev (takeWhile cls s)) (dropWhile cls s) = Some (caps, rest)"
  shows "matchSeq ml (Rep cls lo None True cap # as) prev s
           = Some (if cap then takeWhile cls s # caps else caps, rest)"
proof -
  let ?n = "length (takeWhile cls s)"
  have t: "take ?n s = takeWhile cls s" by (rule takeWhile_eq_take[symmetric])
  have d: "drop ?n s = dropWhile cls s" by (rule dropWhile_eq_drop[symmetric])
  from assms(1) have r: "rev [lo..<Suc ?n] = ?n # rev [lo..<?n]" by simp
  show ?thesis
    using assms(2) by (simp only: matchSeq.simps Let_def option.case if_True r firstSome.simps t d prod.case)
qed

lemma Rep_none:
  "length (takeWhile cls s) < lo \<Longrightarrow> matchSeq ml (Rep cls lo hi greedy cap # as) prev s = None"
  by (auto simp: Let_def split: option.splits)

lemma search_step_None:
  "matchSeq ml re prev (c # cs) = None
   \<Longrightarrow> map_option (\<lambda>r. fst (snd r)) (search ml re prev (c # cs))
       = map_option (\<lambda>r. fst (snd r)) (search ml re (Some c) cs)"
  by (auto split: option.splits)

lemma search_found:
  "matchSeq ml re prev s = Some (caps, rest)
   \<Longrightarrow> map_option (\<lambda>r. fst (snd r)) (search ml re prev s) = Some caps"
  by (cases s) auto

lemma search_within_line:
  "\<not> isLineTerminator c \<Longrightarrow> list_all notLT l
   \<Longrightarrow> map_option (\<lambda>r. fst (snd r)) (search True (Bol # re) (Some c) (l @ tail))
       = map_option (\<lambda>r. fst (snd r)) (search True (Bol # re) (prevAfter (Some c) l) tail)"
proof (induction l arbitrary: c)
  case Nil
  then show ?case by (simp add: prevAfter_def)
next
  case (Cons x xs)
  have "matchSeq True (Bol # re) (Some c) (x # xs @ tail) = None"
    using Cons.prems(1) by (simp add: atBol_def)
  from search_step_None[OF this]
  have "map_option (\<lambda>r. fst (snd r)) (search True (Bol # re) (Some c) ((x # xs) @ tail))
      = map_option (\<lambda>r. fst (snd r)) (search True (Bol # re) (Some x) (xs @ tail))"
    by simp
  also have "\<dots> = map_option (\<lambda>r. fst (snd r)) (search True (Bol # re) (prevAfter (Some x) xs) tail)"
    using Cons.prems by (intro Cons.IH) (simp_all add: notLT_def)
  also have "prevAfter (Some x) xs = prevAfter (Some c) (x # xs)"
    by (simp add: prevAfter_def)
  finally show ?case .
qed


lemma heading_no_hash:
  assumes "1 \<le> k" and "s = [] \<or> hd s \<noteq> CHR ''#''"
  shows "matchSeq True (headingRe k) p s = None"
proof -
  from assms(1) obtain k' where k: "k = Suc k'" by (cases k) auto
  show ?thesis using assms(2) by (cases s) (auto simp: headingRe_def k)
qed

lemma tail_takeWhile:
  "tail = [] \<or> isLineTerminator (hd tail) \<Longrightarrow> takeWhile notLT tail = []"
  by (cases tail) (auto simp: notLT_def)

lemma heading_at_line:
  assumes bol: "atBol True prev" and l: "list_all notLT l"
    and tail: "tail = [] \<or> isLineTerminator (hd tail)"
    and bare: "\<not> bareMarker l" and k: "1 \<le> k" "k \<le> 3"
  shows "matchSeq True (headingRe k) prev (l @ tail)
           = (if specHeading k l \<noteq> None then Some ([dropWhile isSpace (drop k l)], tail) else None)"
proof -
  let ?re = "[Rep isSpace 1 None True False, Rep notLT 1 None True True, Eol]"
  let ?d = "drop k l"
  have m: "matchSeq True (headingRe k) prev (l @ tail)
         = (if take k (l @ tail) = replicate k CHR ''#''
            then matchSeq True ?re (Some CHR ''#'') (drop k (l @ tail)) else None)"
    using bol k by (simp add: headingRe_def matchSeq_hashes)
  show ?thesis
  proof (cases "take k l = replicate k CHR ''#''")
    case False
    have "take k (l @ tail) \<noteq> replicate k CHR ''#''"
    proof
      assume eq: "take k (l @ tail) = replicate k CHR ''#''"
      show False
      proof (cases "k \<le> length l")
        case True
        with eq False show False by simp
      next
        case short: False
        from eq have len: "length (take k (l @ tail)) = k" by simp
        with short have ne: "tail \<noteq> []" by auto
        from short have "hd tail \<in> set (take k (l @ tail))"
          using ne by (cases tail) (auto simp: take_Cons' )
        with eq have "hd tail = CHR ''#''" by auto
        with tail ne show False by (auto simp: isLineTerminator_def)
      qed
    qed
    with m False show ?thesis by (simp add: specHeading_def)
  next
    case True
    have "length (take k l) = k" by (simp only: True length_replicate)
    then have len: "k \<le> length l" by simp
    from True len have tk: "take k (l @ tail) = replicate k CHR ''#''" by simp
    from len have dk: "drop k (l @ tail) = ?d @ tail" by simp
    have lsplit: "l = replicate k CHR ''#'' @ ?d" using True by (metis append_take_drop_id)
    show ?thesis
    proof (cases ?d)
      case Nil
      with lsplit have "l = replicate k CHR ''#''" by simp
      then have "bareMarker l" using k by (simp add: bareMarker_def Let_def)
      with bare show ?thesis by simp
    next
      case (Cons x xs)
      show ?thesis
      proof (cases "isSpace x")
        case False
        then have "takeWhile isSpace (?d @ tail) = []" using Cons by simp
        then have "matchSeq True ?re (Some CHR ''#'') (?d @ tail) = None"
          by (intro Rep_none) simp
        with m tk dk False Cons show ?thesis by (simp add: specHeading_def)
      next
        case sp: True
        then have xh: "x \<noteq> CHR ''#''" by (auto simp: isSpace_def)
        have "takeWhile (\<lambda>c. c = CHR ''#'') (replicate k CHR ''#'' @ x # xs)
                = replicate k CHR ''#'' @ takeWhile (\<lambda>c. c = CHR ''#'') (x # xs)"
          by (rule takeWhile_append2) simp
        then have tw: "takeWhile (\<lambda>c. c = CHR ''#'') l = replicate k CHR ''#''"
          by (subst lsplit) (simp add: Cons xh)
        show ?thesis
        proof (cases "list_all isSpace ?d")
          case True
          then have "bareMarker l" using k tw by (simp add: bareMarker_def Let_def)
          with bare show ?thesis by simp
        next
          case False
          then obtain y where y: "y \<in> set ?d" "\<not> isSpace y" by (auto simp: list_all_iff)
          let ?g = "dropWhile isSpace ?d"
          have t1: "takeWhile isSpace (?d @ tail) = takeWhile isSpace ?d"
            using y by (simp add: takeWhile_append1)
          have d1: "dropWhile isSpace (?d @ tail) = ?g @ tail"
            using y by (simp add: dropWhile_append1)
          have a1: "1 \<le> length (takeWhile isSpace (?d @ tail))"
            using sp Cons by (simp add: t1)
          have gne: "?g \<noteq> []" using y by (auto simp: dropWhile_eq_Nil_conv)
          have gl: "list_all notLT ?g"
            using l by (auto simp: list_all_iff dest!: set_dropWhileD in_set_dropD)
          have t2: "takeWhile notLT (?g @ tail) = ?g"
            using gl tail_takeWhile[OF tail] by (simp add: takeWhile_append2 list_all_iff)
          have d2: "dropWhile notLT (?g @ tail) = tail"
            using gl tail_takeWhile[OF tail]
            by (simp add: dropWhile_append2 list_all_iff) (metis takeWhile_dropWhile_id append_Nil)
          have e: "matchSeq True [Eol] p tail = Some ([], tail)" for p
            using tail by (cases tail) (auto simp: atEol_def)
          have a2: "1 \<le> length (takeWhile notLT (?g @ tail))"
            using gne by (simp add: t2) (cases ?g; simp)
          have 2: "matchSeq True [Rep notLT 1 None True True, Eol] p (?g @ tail) = Some ([?g], tail)" for p
            using Rep_greedy_first[OF a2, of True "[Eol]" p "[]" tail True] e
            by (simp add: t2 d2)
          have "matchSeq True ?re (Some CHR ''#'') (?d @ tail) = Some ([?g], tail)"
            using Rep_greedy_first[OF a1, of True "[Rep notLT 1 None True True, Eol]" "Some CHR ''#''" "[?g]" tail False] 2
            by (simp add: t1 d1)
          with m tk dk sp Cons False True show ?thesis
            by (simp add: specHeading_def)
        qed
      qed
    qed
  qed
qed

lemma specLines_line:
  assumes "list_all notLT l"
  shows "specLines (l @ LF # rest) = l # specLines rest"
    and "specLines (l @ CR # LF # rest) = l # specLines rest"
    and "specLines l = [l]"
  using assms by (induction l) (auto simp: notLT_iff)

lemma loneCR_suffix: "\<not> loneCR (xs @ ys) \<Longrightarrow> \<not> loneCR ys"
  by (induction xs) auto

lemma loneCR_CR: "\<not> loneCR (CR # t) \<Longrightarrow> \<exists>rest. t = LF # rest"
  by (cases t) auto

lemma walk_line:
  assumes "matchSeq True (headingRe k) prev (l @ tail) = None" and "list_all notLT l"
  shows "map_option (\<lambda>r. fst (snd r)) (search True (headingRe k) prev (l @ tail))
       = map_option (\<lambda>r. fst (snd r)) (search True (headingRe k) (prevAfter prev l) tail)"
proof (cases l)
  case Nil
  then show ?thesis by (simp add: prevAfter_def)
next
  case (Cons x xs)
  let ?re = "replicate k (Chr CHR ''#'') @ [Rep isSpace 1 None True False, Rep notLT 1 None True True, Eol]"
  have h: "headingRe k = Bol # ?re" by (simp add: headingRe_def)
  from assms(1) Cons have "matchSeq True (headingRe k) prev (x # xs @ tail) = None" by simp
  from search_step_None[OF this]
  have "map_option (\<lambda>r. fst (snd r)) (search True (headingRe k) prev (l @ tail))
      = map_option (\<lambda>r. fst (snd r)) (search True (Bol # ?re) (Some x) (xs @ tail))"
    by (simp add: Cons h)
  also have "\<dots> = map_option (\<lambda>r. fst (snd r)) (search True (Bol # ?re) (prevAfter (Some x) xs) tail)"
    using assms(2) Cons by (intro search_within_line) (simp_all add: notLT_def)
  also have "prevAfter (Some x) xs = prevAfter prev l"
    by (simp add: prevAfter_def Cons)
  finally show ?thesis by (simp add: h)
qed

lemma heading_search:
  assumes k: "1 \<le> k" "k \<le> 3"
  shows "\<not> loneCR s \<Longrightarrow> list_all (\<lambda>l. \<not> bareMarker l) (specLines s) \<Longrightarrow> atBol True prev
     \<Longrightarrow> map_option (\<lambda>r. fst (snd r)) (search True (headingRe k) prev s)
         = map_option (\<lambda>l. [dropWhile isSpace (drop k l)])
             (find (\<lambda>l. specHeading k l \<noteq> None) (specLines s))"
proof (induction s arbitrary: prev rule: length_induct)
  case (1 s)
  let ?caps = "map_option (\<lambda>r. fst (snd r))"
  let ?P = "\<lambda>l. specHeading k l \<noteq> None"
  let ?G = "map_option (\<lambda>l. [dropWhile isSpace (drop k l)])"
  define l where "l = takeWhile notLT s"
  define tail where "tail = dropWhile notLT s"
  have s: "s = l @ tail" by (simp add: l_def tail_def)
  have l: "list_all notLT l" by (auto simp: l_def list_all_iff dest: set_takeWhileD)
  have tail: "tail = [] \<or> isLineTerminator (hd tail)"
    unfolding tail_def using hd_dropWhile[of notLT s] by (auto simp: notLT_def)
  from "1.prems"(1) s have ncr: "\<not> loneCR tail" using loneCR_suffix by blast
  consider (e) "tail = []" | (lf) rest where "tail = LF # rest" | (crlf) rest where "tail = CR # LF # rest"
  proof (cases tail)
    case Nil
    then show ?thesis using e by simp
  next
    case (Cons c cs)
    with tail have "c = LF \<or> c = CR" by (auto simp: isLineTerminator_def LF_def CR_def)
    then show ?thesis
    proof
      assume "c = LF" with Cons show ?thesis using lf by simp
    next
      assume c: "c = CR"
      with ncr Cons obtain rest where "cs = LF # rest" using loneCR_CR by blast
      with c Cons show ?thesis using crlf by simp
    qed
  qed
  then have lines: "\<exists>more. specLines s = l # more
         \<and> (tail = [] \<longrightarrow> more = [])
         \<and> (\<forall>rest. tail = LF # rest \<or> tail = CR # LF # rest \<longrightarrow> more = specLines rest)"
    using specLines_line[OF l] s by cases auto
  then obtain more where more: "specLines s = l # more" "tail = [] \<longrightarrow> more = []"
      "\<And>rest. tail = LF # rest \<or> tail = CR # LF # rest \<Longrightarrow> more = specLines rest"
    by blast
  from "1.prems"(2) more(1) have bare: "\<not> bareMarker l" and bmore: "list_all (\<lambda>l. \<not> bareMarker l) more"
    by simp_all
  note at = heading_at_line[OF "1.prems"(3) l tail bare k]
  show ?case
  proof (cases "specHeading k l \<noteq> None")
    case True
    with at have "matchSeq True (headingRe k) prev s = Some ([dropWhile isSpace (drop k l)], tail)"
      by (simp add: s)
    from search_found[OF this] True more(1) show ?thesis by simp
  next
    case False
    with at have none: "matchSeq True (headingRe k) prev (l @ tail) = None" by simp
    from walk_line[OF none l]
    have w: "?caps (search True (headingRe k) prev s)
           = ?caps (search True (headingRe k) (prevAfter prev l) tail)"
      by (simp add: s)
    have rhs: "?G (find ?P (specLines s)) = ?G (find ?P more)"
      using False more(1) by simp
    have IH: "?caps (search True (headingRe k) (Some LF) rest) = ?G (find ?P (specLines rest))"
      if "tail = LF # rest \<or> tail = CR # LF # rest" for rest
    proof -
      from that s have len: "length rest < length s" by auto
      from that ncr have n: "\<not> loneCR rest" by auto
      from more(3)[OF that] bmore have b: "list_all (\<lambda>l. \<not> bareMarker l) (specLines rest)" by simp
      have a: "atBol True (Some LF)" by (simp add: atBol_def)
      from "1.IH" len n b a show ?thesis by blast
    qed
    show ?thesis
    proof (cases tail)
      case Nil
      have "matchSeq True (headingRe k) (prevAfter prev l) [] = None"
        by (rule heading_no_hash[OF k(1)]) simp
      then have "?caps (search True (headingRe k) (prevAfter prev l) []) = None" by simp
      with w rhs more(2) Nil show ?thesis by simp
    next
      case (Cons c cs)
      with tail have c: "c = LF \<or> c = CR" by (auto simp: isLineTerminator_def LF_def CR_def)
      then have "matchSeq True (headingRe k) (prevAfter prev l) (c # cs) = None"
        by (intro heading_no_hash[OF k(1)]) (auto simp: LF_def CR_def)
      from search_step_None[OF this] w Cons
      have w2: "?caps (search True (headingRe k) prev s) = ?caps (search True (headingRe k) (Some c) cs)"
        by simp
      from c show ?thesis
      proof
        assume "c = LF"
        with Cons have t: "tail = LF # cs" by simp
        with IH[of cs] w2 rhs more(3)[of cs] \<open>c = LF\<close> show ?thesis by simp
      next
        assume cr: "c = CR"
        with ncr Cons obtain rest where r: "cs = LF # rest" using loneCR_CR by blast
        have "matchSeq True (headingRe k) (Some CR) (LF # rest) = None"
          by (rule heading_no_hash[OF k(1)]) simp
        from search_step_None[OF this] w2 cr r
        have w3: "?caps (search True (headingRe k) prev s) = ?caps (search True (headingRe k) (Some LF) rest)"
          by simp
        from cr r Cons have t: "tail = CR # LF # rest" by simp
        with IH[of rest] w3 rhs more(3)[of rest] show ?thesis by simp
      qed
    qed
  qed
qed


lemma newline_match:
  "matchSeq False newlineRe prev s
     = (case s of
          [] \<Rightarrow> None
        | c # cs \<Rightarrow>
            if c = LF then Some ([], cs)
            else if c = CR \<and> take 1 cs = [LF] then Some ([], drop 1 cs)
            else None)"
proof (cases s)
  case Nil
  then show ?thesis by (simp add: newlineRe_def Let_def)
next
  case (Cons c cs)
  show ?thesis
  proof (cases "c = CR")
    case False
    then show ?thesis using Cons by (simp add: newlineRe_def Let_def)
  next
    case True
    have u: "[0..<Suc (Suc 0)] = [0, Suc 0]" by (simp add: upt_rec)
    show ?thesis
    proof (cases cs)
      case Nil
      then show ?thesis using True Cons by (simp add: newlineRe_def Let_def u min_def)
    next
      case (Cons d ds)
      then show ?thesis using True \<open>s = c # cs\<close> by (simp add: newlineRe_def Let_def u min_def)
    qed
  qed
qed

lemma newline_search_shorter:
  "search False newlineRe prev s = Some (pre, caps, m, rest) \<Longrightarrow> length rest < length s"
proof (induction s arbitrary: prev pre)
  case Nil
  then show ?case by (simp add: newline_match)
next
  case (Cons c cs)
  show ?case
  proof (cases "matchSeq False newlineRe prev (c # cs)")
    case None
    with Cons.prems obtain pre' where "search False newlineRe (Some c) cs = Some (pre', caps, m, rest)"
      by (auto split: option.splits)
    from Cons.IH[OF this] show ?thesis by simp
  next
    case (Some r)
    with Cons.prems have "r = (caps, rest)" by (cases r) auto
    with Some show ?thesis by (auto simp: newline_match split: if_splits)
  qed
qed

lemma splitRe_specLines: "splitRe False newlineRe prev s = specLines s"
proof (induction s arbitrary: prev rule: length_induct)
  case (1 s)
  show ?case
  proof (cases s)
    case Nil
    then show ?thesis by (simp add: splitRe.simps newline_match)
  next
    case (Cons c cs)
    show ?thesis
    proof (cases "matchSeq False newlineRe prev (c # cs)")
      case (Some r)
      then consider (lf) "c = LF" "r = ([], cs)"
        | (crlf) "c = CR" "c \<noteq> LF" "take 1 cs = [LF]" "r = ([], drop 1 cs)"
        by (auto simp: newline_match split: if_splits)
      then show ?thesis
      proof cases
        case lf
        have "splitRe False newlineRe prev (c # cs) = [] # splitRe False newlineRe (prevAfter prev [LF]) cs"
          using Some lf by (subst splitRe.simps) simp
        also have "splitRe False newlineRe (prevAfter prev [LF]) cs = specLines cs"
          using "1.IH" Cons by simp
        finally show ?thesis using Cons lf by simp
      next
        case crlf
        then obtain ds where ds: "cs = LF # ds" by (cases cs) auto
        have "splitRe False newlineRe prev (c # cs) = [] # splitRe False newlineRe (prevAfter prev [CR, LF]) ds"
          using Some crlf ds by (subst splitRe.simps) simp
        also have "splitRe False newlineRe (prevAfter prev [CR, LF]) ds = specLines ds"
          using "1.IH" Cons ds by simp
        finally show ?thesis using Cons crlf ds by simp
      qed
    next
      case None
      then have nolf: "c \<noteq> LF" "\<not> (c = CR \<and> take 1 cs = [LF])"
        by (auto simp: newline_match split: if_splits)
      have IHcs: "splitRe False newlineRe (Some c) cs = specLines cs"
        using "1.IH" Cons by simp
      show ?thesis
      proof (cases "search False newlineRe (Some c) cs")
        case N: None
        then have "splitRe False newlineRe (Some c) cs = [cs]" by (subst splitRe.simps) simp
        with IHcs have "specLines cs = [cs]" by simp
        moreover have "splitRe False newlineRe prev (c # cs) = [c # cs]"
          using None N by (subst splitRe.simps) simp
        ultimately show ?thesis using Cons nolf by simp
      next
        case S: (Some t)
        obtain pre caps m rest where t: "t = (pre, caps, m, rest)" by (cases t) auto
        from newline_search_shorter[OF S[unfolded t]] have sh: "length rest < length cs" .
        have a: "splitRe False newlineRe (Some c) cs
                  = pre # splitRe False newlineRe (prevAfter (Some c) (pre @ m)) rest"
          using S t sh by (subst splitRe.simps) simp
        have b: "splitRe False newlineRe prev (c # cs)
                  = (c # pre) # splitRe False newlineRe (prevAfter prev ((c # pre) @ m)) rest"
          using None S t sh by (subst splitRe.simps) simp
        have r: "splitRe False newlineRe p rest = specLines rest" for p
          using "1.IH" Cons sh by simp
        from a IHcs r have "specLines cs = pre # specLines rest" by simp
        with b r show ?thesis using Cons nolf by simp
      qed
    qed
  qed
qed

lemma trim_Nil_iff: "(trim l = []) = list_all isSpace l"
proof -
  have a: "(\<forall>x \<in> set (dropWhile isSpace l). isSpace x) = (dropWhile isSpace l = [])"
  proof
    assume all: "\<forall>x \<in> set (dropWhile isSpace l). isSpace x"
    show "dropWhile isSpace l = []"
    proof (rule ccontr)
      assume ne: "dropWhile isSpace l \<noteq> []"
      from hd_dropWhile[OF ne] have "\<not> isSpace (hd (dropWhile isSpace l))" .
      moreover from ne have "hd (dropWhile isSpace l) \<in> set (dropWhile isSpace l)" by simp
      ultimately show False using all by blast
    qed
  next
    assume e: "dropWhile isSpace l = []"
    show "\<forall>x \<in> set (dropWhile isSpace l). isSpace x" unfolding e by simp
  qed
  have "(trim l = []) = (\<forall>x \<in> set (dropWhile isSpace l). isSpace x)"
    by (simp add: trim_def dropWhile_eq_Nil_conv)
  also have "\<dots> = (dropWhile isSpace l = [])" by (rule a)
  also have "\<dots> = list_all isSpace l" by (simp add: dropWhile_eq_Nil_conv list_all_iff)
  finally show ?thesis .
qed

lemma trim_dropWhile: "trim (dropWhile isSpace xs) = trim xs"
  by (simp add: trim_def)

lemma firstSome_find:
  "firstSome f xs = map_option (\<lambda>x. the (f x)) (find (\<lambda>x. f x \<noteq> None) xs)"
  by (induction xs) (auto split: option.splits)

lemma specHeading_Some: "specHeading k l \<noteq> None \<Longrightarrow> specHeading k l = Some (trim (drop k l)) \<and> trim (drop k l) \<noteq> []"
  by (auto simp: specHeading_def trim_Nil_iff split: if_splits)

lemma heading_group:
  assumes "1 \<le> k" "k \<le> 3" "plainText content"
  shows "map_option trim (matchGroup1 True (headingRe k) content) = firstSome (specHeading k) (specLines content)
       \<and> (\<forall>g. matchGroup1 True (headingRe k) content = Some g \<longrightarrow> g \<noteq> [])"
proof -
  let ?P = "\<lambda>l. specHeading k l \<noteq> None"
  from assms(3) have p: "\<not> loneCR content" "list_all (\<lambda>l. \<not> bareMarker l) (specLines content)"
    by (simp_all add: plainText_def)
  have a: "atBol True None" by (simp add: atBol_def)
  note hs = heading_search[OF assms(1,2) p a]
  have mg: "matchGroup1 True (headingRe k) content
        = map_option (\<lambda>l. dropWhile isSpace (drop k l)) (find ?P (specLines content))"
  proof (cases "search True (headingRe k) None content")
    case None
    with hs show ?thesis by (auto simp: matchGroup1_def)
  next
    case (Some r)
    with hs show ?thesis
      by (cases r; cases "find ?P (specLines content)") (auto simp: matchGroup1_def)
  qed
  show ?thesis
  proof (cases "find ?P (specLines content)")
    case None
    with mg show ?thesis by (simp add: firstSome_find)
  next
    case (Some l)
    then have "?P l" by (auto simp: find_Some_iff)
    from specHeading_Some[OF this] have t: "specHeading k l = Some (trim (drop k l))" "trim (drop k l) \<noteq> []"
      by simp_all
    from t(2) have "dropWhile isSpace (drop k l) \<noteq> []"
      by (simp add: trim_Nil_iff dropWhile_eq_Nil_conv list_all_iff)
    with mg Some t show ?thesis by (simp add: firstSome_find trim_dropWhile)
  qed
qed

lemma nameFromContent_spec:
  assumes "plainText content"
  shows "nameFromContent content = specName content"
proof -
  have h1: "map_option trim (matchGroup1 True (headingRe 1) content) = firstSome (specHeading 1) (specLines content)"
      "\<And>g. matchGroup1 True (headingRe 1) content = Some g \<Longrightarrow> g \<noteq> []"
    using heading_group[of 1 content] assms by simp_all
  have h2: "map_option trim (matchGroup1 True (headingRe 2) content) = firstSome (specHeading 2) (specLines content)"
      "\<And>g. matchGroup1 True (headingRe 2) content = Some g \<Longrightarrow> g \<noteq> []"
    using heading_group[of 2 content] assms by simp_all
  have h3: "map_option trim (matchGroup1 True (headingRe 3) content) = firstSome (specHeading 3) (specLines content)"
      "\<And>g. matchGroup1 True (headingRe 3) content = Some g \<Longrightarrow> g \<noteq> []"
    using heading_group[of 3 content] assms by simp_all
  have fh: "specFirstHeading content
       = (case map_option trim (matchGroup1 True (headingRe 1) content) of
            Some t \<Rightarrow> Some t
          | None \<Rightarrow>
              (case map_option trim (matchGroup1 True (headingRe 2) content) of
                 Some t \<Rightarrow> Some t
               | None \<Rightarrow> map_option trim (matchGroup1 True (headingRe 3) content)))"
    by (simp only: specFirstHeading_def h1(1) h2(1) h3(1))
  show ?thesis
    using h1(2) h2(2) h3(2)
    by (cases "matchGroup1 True (headingRe 1) content";
        cases "matchGroup1 True (headingRe 2) content";
        cases "matchGroup1 True (headingRe 3) content")
       (auto simp: nameFromContent_def specName_def fh specFirstNonBlankLine_def
          splitRe_specLines trim_Nil_iff split: option.splits)
qed

lemma deriveNameFrom_spec:
  assumes "\<forall>c \<in> set cands. plainCandidate entries c"
  shows "deriveNameFrom cands entries = Inr (firstSome (specCandidate entries) cands)"
  using assms
proof (induction cands)
  case Nil
  then show ?case by simp
next
  case (Cons c cands)
  then have IH: "deriveNameFrom cands entries = Inr (firstSome (specCandidate entries) cands)"
    and c: "plainCandidate entries c" by auto
  show ?case
  proof (cases "lookupEntry c entries")
    case None
    then have "specCandidate entries c = None" by (simp add: specCandidate_def)
    with None IH show ?thesis by simp
  next
    case (Some e)
    with c obtain n content where e: "e = File n content" and p: "plainText content"
      by (cases e) (auto simp: plainCandidate_def)
    from Some e have sc: "specCandidate entries c = specName content"
      by (simp add: specCandidate_def)
    from nameFromContent_spec[OF p] have nc: "nameFromContent content = specName content" .
    show ?thesis
      using Some e sc nc IH by (cases "specName content") (simp_all add: readEntry_def)
  qed
qed


section \<open>Finding or creating the book and the chapter\<close>

lemma search_Bol_later:
  "search False (Bol # re) (Some c) s = None"
  by (induction s arbitrary: c) (auto simp: atBol_def split: option.splits)

lemma test_digits: "test False [Bol, Rep isDigit 1 None True False, Eol] s = onlyDigits s"
proof
  assume "test False [Bol, Rep isDigit 1 None True False, Eol] s"
  then obtain r where r: "search False [Bol, Rep isDigit 1 None True False, Eol] None s = Some r"
    by (auto simp: test_def)
  have "\<exists>caps rest. matchSeq False [Bol, Rep isDigit 1 None True False, Eol] None s = Some (caps, rest)"
  proof (cases s)
    case Nil
    with r show ?thesis by (auto simp: atBol_def Let_def split: option.splits)
  next
    case (Cons c cs)
    with r show ?thesis
      by (cases "matchSeq False [Bol, Rep isDigit 1 None True False, Eol] None (c # cs)")
         (auto simp: search_Bol_later)
  qed
  then obtain caps rest where "matchSeq False [Rep isDigit 1 None True False, Eol] None s = Some (caps, rest)"
    by (auto simp: atBol_def split: if_splits)
  from matchSeq_RepD[OF this] obtain n caps' where n: "1 \<le> n" "n \<le> length (takeWhile isDigit s)"
    and e: "matchSeq False [Eol] (prevAfter None (take n s)) (drop n s) = Some (caps', rest)"
    by auto
  from e have "drop n s = []" by (auto simp: atEol_def split: if_splits list.splits)
  then have "length s \<le> n" by simp
  with n have len: "length (takeWhile isDigit s) = length s" "s \<noteq> []"
    using length_takeWhile_le[of isDigit s] by auto
  then have "takeWhile isDigit s = s"
    by (metis append_eq_conv_conj takeWhile_dropWhile_id take_all_iff le_refl)
  then have "list_all isDigit s"
    by (metis list_all_iff set_takeWhileD)
  with len show "onlyDigits s" by (simp add: onlyDigits_def)
next
  assume "onlyDigits s"
  then have s: "s \<noteq> []" and all: "list_all isDigit s" by (simp_all add: onlyDigits_def)
  from all have tw: "takeWhile isDigit s = s" by (simp add: list_all_iff)
  from s have "rev [1..<Suc (length s)] = length s # rev [1..<length s]"
    by (cases s) simp_all
  then have "matchSeq False [Rep isDigit 1 None True False, Eol] None s = Some ([], [])"
    by (simp add: tw Let_def atEol_def)
  then have "matchSeq False [Bol, Rep isDigit 1 None True False, Eol] None s = Some ([], [])"
    by (simp add: atBol_def)
  then have "search False [Bol, Rep isDigit 1 None True False, Eol] None s \<noteq> None"
    by (cases s) auto
  then show "test False [Bol, Rep isDigit 1 None True False, Eol] s" by (simp add: test_def)
qed

lemma bitLength_le: "n < 2 ^ k \<Longrightarrow> bitLength n \<le> k"
proof (induction k arbitrary: n)
  case 0
  then show ?case by (simp add: bitLength.simps)
next
  case (Suc k)
  show ?case
  proof (cases "n = 0")
    case True
    then show ?thesis by (simp add: bitLength.simps)
  next
    case False
    from Suc.prems have "n div 2 < 2 ^ k" by simp
    from Suc.IH[OF this] False show ?thesis by (subst bitLength.simps) simp
  qed
qed

lemma toNumber_small: "n < 2 ^ 53 \<Longrightarrow> toNumber n = Finite n"
  using bitLength_le[of n 53] by (simp add: toNumber_def Let_def)

lemma nameMatches_fold:
  "(\<lambda>b. toLowerCase (b_name b) = toLowerCase name \<or> toLowerCase (b_slug b) = toLowerCase name) = nameMatches name"
  by (rule ext) (simp add: nameMatches_def)

lemma getBook_eq:
  "getBook n r =
     (if length (calls r) \<in> set (faults r) then Inl NetworkError
      else case bookById n (books r) of None \<Rightarrow> Inl (HttpError 404) | Some b \<Rightarrow> Inr b,
      r\<lparr>calls := calls r @ [GetBook n]\<rparr>)"
  by (simp add: getBook_def request_def split: option.splits)

lemma findBookByName_eq:
  "findBookByName name r =
     (if length (calls r) \<in> set (faults r) then Inl NetworkError
      else Inr (find (nameMatches name) (books r)),
      r\<lparr>calls := calls r @ [GetBooks]\<rparr>)"
  by (simp add: findBookByName_def getBooks_def request_def nameMatches_fold)

lemma createBook_eq:
  "createBook name d r =
     (if length (calls r) \<in> set (faults r) then (Inl NetworkError, r\<lparr>calls := calls r @ [CreateBook name d]\<rparr>)
      else (Inr \<lparr>b_id = next_id r, b_name = name, b_slug = slugOf r name, b_description = Some d\<rparr>,
            r\<lparr>calls := calls r @ [CreateBook name d],
              books := books r @ [\<lparr>b_id = next_id r, b_name = name, b_slug = slugOf r name, b_description = Some d\<rparr>],
              next_id := Suc (next_id r)\<rparr>))"
  by (simp add: createBook_def request_def Let_def)

lemma getChapters_eq:
  "getChapters bookId r =
     (if length (calls r) \<in> set (faults r) then Inl NetworkError
      else case find (\<lambda>b. b_id b = bookId) (books r) of
             None \<Rightarrow> Inl (HttpError 404)
           | Some b \<Rightarrow> Inr (filter (\<lambda>c. c_book_id c = bookId) (chapters r)),
      r\<lparr>calls := calls r @ [GetChapters bookId]\<rparr>)"
  by (simp add: getChapters_def request_def split: option.splits)

lemma createChapter_eq:
  "createChapter bookId name d r =
     (if length (calls r) \<in> set (faults r) \<or> find (\<lambda>b. b_id b = bookId) (books r) = None
      then (if length (calls r) \<in> set (faults r) then Inl NetworkError else Inl (HttpError 404),
            r\<lparr>calls := calls r @ [CreateChapter bookId name d]\<rparr>)
      else (Inr \<lparr>c_id = next_id r, c_book_id = bookId, c_name = name, c_slug = slugOf r name,
                  c_description = Some d\<rparr>,
            r\<lparr>calls := calls r @ [CreateChapter bookId name d],
              chapters := chapters r @ [\<lparr>c_id = next_id r, c_book_id = bookId, c_name = name,
                                         c_slug = slugOf r name, c_description = Some d\<rparr>],
              next_id := Suc (next_id r)\<rparr>))"
  by (auto simp: createChapter_def request_def Let_def split: option.splits)

lemma find_append_None: "find P xs = None \<Longrightarrow> find P (xs @ ys) = find P ys"
  by (induction xs) (auto split: if_splits)

lemma bookById_append_None: "bookById x xs = None \<Longrightarrow> bookById x (xs @ ys) = bookById x ys"
  by (cases x) (simp_all add: bookById_def find_append_None)

lemma bookById_mem: "bookById x bs = Some b \<Longrightarrow> b \<in> set bs"
  by (cases x) (auto simp: bookById_def find_Some_iff)

lemma getTargetBook_idempotent:
  assumes "faults r = []"
  shows "\<exists>b r1 r2. getTargetBook name dry r = (Inr b, r1) \<and> getTargetBook name dry r1 = (Inr b, r2)
            \<and> filter isWrite (calls r2) = filter isWrite (calls r1) \<and> books r2 = books r1"
proof (cases dry)
  case True
  then show ?thesis by (simp add: getTargetBook_def)
next
  case False
  let ?digits = "test False [Bol, Rep isDigit 1 None True False, Eol] name"
  let ?byId = "bookById (parseInt name) (books r)"
  let ?byName = "find (nameMatches name) (books r)"
  let ?new = "\<lparr>b_id = next_id r, b_name = name, b_slug = slugOf r name,
               b_description = Some ''Book created by bookstack-cli import''\<rparr>"
  have nm: "nameMatches name ?new" by (simp add: nameMatches_def)
  consider (byId) b where "?digits" "?byId = Some b"
    | (byName) b where "\<not> ?digits \<or> ?byId = None" "?byName = Some b"
    | (create) "\<not> ?digits \<or> ?byId = None" "?byName = None"
    by (cases ?byId; cases ?byName) auto
  then show ?thesis
  proof cases
    case byId
    with False assms show ?thesis
      by (simp add: getTargetBook_def getBook_eq isWrite_def)
  next
    case byName
    with False assms show ?thesis
      by (auto simp: getTargetBook_def getBook_eq findBookByName_eq isWrite_def)
  next
    case create
    have one: "bookById (parseInt name) [?new] = None \<or> bookById (parseInt name) [?new] = Some ?new"
      by (cases "parseInt name") (simp_all add: bookById_def)
    from create False assms nm one show ?thesis
      by (auto simp: getTargetBook_def getBook_eq findBookByName_eq createBook_eq isWrite_def
          find_append_None bookById_append_None split: if_splits)
  qed
qed

lemma getOrCreateChapter_idempotent:
  assumes "faults r = []" and "getOrCreateChapter bookId cname descr dry r = (Inr ch, r1)"
  shows "\<exists>r2. getOrCreateChapter bookId cname descr dry r1 = (Inr ch, r2)
            \<and> filter isWrite (calls r2) = filter isWrite (calls r1) \<and> chapters r2 = chapters r1"
proof (cases dry)
  case True
  with assms show ?thesis by (auto simp: getOrCreateChapter_def)
next
  case False
  let ?P = "\<lambda>c. toLowerCase (c_name c) = toLowerCase cname"
  let ?existing = "filter (\<lambda>c. c_book_id c = bookId) (chapters r)"
  show ?thesis
  proof (cases "find (\<lambda>b. b_id b = bookId) (books r)")
    case None
    with False assms show ?thesis by (simp add: getOrCreateChapter_def getChapters_eq)
  next
    case (Some bk)
    show ?thesis
    proof (cases "find ?P ?existing")
      case (Some found)
      with False assms \<open>find (\<lambda>b. b_id b = bookId) (books r) = Some bk\<close> show ?thesis
        by (auto simp: getOrCreateChapter_def getChapters_eq isWrite_def)
    next
      case None
      with False assms \<open>find (\<lambda>b. b_id b = bookId) (books r) = Some bk\<close> show ?thesis
        by (auto simp: getOrCreateChapter_def getChapters_eq createChapter_eq isWrite_def
            find_append_None)
    qed
  qed
qed

lemma getOrCreateChapter_succeeds:
  assumes "faults r = []" and "dry \<or> find (\<lambda>b. b_id b = bookId) (books r) \<noteq> None"
  shows "\<exists>ch r1. getOrCreateChapter bookId cname descr dry r = (Inr ch, r1)"
  using assms
  by (auto simp: getOrCreateChapter_def getChapters_eq createChapter_eq split: option.splits)

section \<open>A directory import in an environment that does not fail\<close>

lemma completes_cong: "(\<And>s. m s = m' s) \<Longrightarrow> completes p m' q \<Longrightarrow> completes p m q"
  by (simp add: completes_def)

lemma completesD:
  assumes "completes p m q" and "p s"
  shows "\<exists>x s'. m s = (Inr x, s') \<and> q x s'"
proof -
  obtain res s' where ms: "m s = (res, s')" by (cases "m s")
  from assms have "case m s of (Inl e, s') \<Rightarrow> False | (Inr x, s') \<Rightarrow> q x s'"
    by (simp add: completes_def)
  with ms show ?thesis by (cases res) simp_all
qed

lemma completesI:
  assumes "\<And>s. p s \<Longrightarrow> \<exists>x s'. m s = (Inr x, s') \<and> q x s'"
  shows "completes p m q"
  unfolding completes_def
proof (intro allI impI)
  fix s assume "p s"
  from assms[OF this] obtain x s' where "m s = (Inr x, s')" "q x s'" by blast
  then show "case m s of (Inl e, s') \<Rightarrow> False | (Inr x, s') \<Rightarrow> q x s'" by simp
qed

lemma completes_weaken:
  assumes "completes p' m q'" and "\<And>s. p s \<Longrightarrow> p' s" and "\<And>x s. q' x s \<Longrightarrow> q x s"
  shows "completes p m q"
proof (rule completesI)
  fix s assume "p s"
  then have "p' s" by (rule assms(2))
  from completesD[OF assms(1) this] obtain x s' where "m s = (Inr x, s')" "q' x s'" by blast
  with assms(3) show "\<exists>x s'. m s = (Inr x, s') \<and> q x s'" by blast
qed

lemma completes_return: "completes (q x) (\<lambda>s. (Inr x, s)) q"
  by (simp add: completes_def)

lemma completes_seq:
  assumes "completes p m q" and "\<And>x. completes (q x) (k x) r"
  shows "completes p (\<lambda>s. case m s of (Inl e, s') \<Rightarrow> (Inl e, s') | (Inr x, s') \<Rightarrow> k x s') r"
proof (rule completesI)
  fix s assume "p s"
  from completesD[OF assms(1) this] obtain x s1 where m: "m s = (Inr x, s1)" and q: "q x s1"
    by blast
  from completesD[OF assms(2) q] obtain y s2 where "k x s1 = (Inr y, s2)" "r y s2" by blast
  with m show "\<exists>y s'. (case m s of (Inl e, s') \<Rightarrow> (Inl e, s') | (Inr x, s') \<Rightarrow> k x s') = (Inr y, s') \<and> r y s'"
    by simp
qed

lemma completes_forEach:
  assumes "\<And>x. completes I (cb x) (\<lambda>u. I)"
  shows "completes I (forEach cb xs) (\<lambda>u. I)"
proof (induction xs)
  case Nil
  show ?case by (rule completes_cong[OF _ completes_return[of "\<lambda>u. I" "()"]]) simp
next
  case (Cons x xs)
  have "completes I (\<lambda>s. case cb x s of (Inl e, s') \<Rightarrow> (Inl e, s') | (Inr u, s') \<Rightarrow> forEach cb xs s') (\<lambda>u. I)"
    by (rule completes_seq[OF assms[of x]]) (rule Cons)
  then show ?case by (rule completes_cong[rotated]) simp
qed

lemma completes_walkFiles:
  assumes "\<And>p c. completes I (onFile p c) (\<lambda>u. I)"
  shows "completes I (walkFiles root entries depth onFile) (\<lambda>u. I)"
proof -
  have "\<And>x. completes I ((\<lambda>(p, c). onFile p c) x) (\<lambda>u. I)" using assms by (simp add: split_beta)
  from completes_forEach[of I "\<lambda>(p, c). onFile p c", OF this]
  show ?thesis by (rule completes_cong[rotated]) (simp add: walkFiles_forEach)
qed

lemma createPage_eq:
  "createPage d r =
     (if length (calls r) \<in> set (faults r) then (Inl NetworkError, r\<lparr>calls := calls r @ [CreatePage d]\<rparr>)
      else if find (\<lambda>b. b_id b = pd_book_id d) (books r) = None
             \<or> (case pd_chapter_id d of None \<Rightarrow> False
                 | Some ch \<Rightarrow> find (\<lambda>c. c_id c = ch) (chapters r) = None)
      then (Inl (HttpError 404), r\<lparr>calls := calls r @ [CreatePage d]\<rparr>)
      else (Inr \<lparr>p_id = next_id r, p_data = d, p_slug = slugOf r (pd_name d)\<rparr>,
            r\<lparr>calls := calls r @ [CreatePage d],
              pages := pages r @ [\<lparr>p_id = next_id r, p_data = d, p_slug = slugOf r (pd_name d)\<rparr>],
              next_id := Suc (next_id r)\<rparr>))"
  by (cases "length (calls r) \<in> set (faults r)"; cases "pd_chapter_id d")
     (simp_all add: createPage_def request_def Let_def)

lemma createPage_ready:
  assumes "faults r = []" and "find (\<lambda>b. b_id b = pd_book_id d) (books r) \<noteq> None"
    and "case pd_chapter_id d of None \<Rightarrow> True | Some ch \<Rightarrow> find (\<lambda>c. c_id c = ch) (chapters r) \<noteq> None"
  shows "\<exists>pg r1. createPage d r = (Inr pg, r1) \<and> faults r1 = [] \<and> books r1 = books r
            \<and> chapters r1 = chapters r"
proof (cases "pd_chapter_id d")
  case None
  with assms show ?thesis by (simp add: createPage_eq)
next
  case (Some ch)
  with assms show ?thesis by (simp add: createPage_eq)
qed

lemma completes_createPageInBook:
  "completes (pageReady opts bookId chapterId) (createPageInBook bookId p c d opts)
     (\<lambda>u. pageReady opts bookId chapterId)"
proof (cases "dryRun opts")
  case True
  then show ?thesis
    by (simp add: completes_def pageReady_def createPageInBook_def Let_def)
next
  case False
  show ?thesis
    unfolding completes_def
  proof (intro allI impI)
    fix w :: world
    assume "pageReady opts bookId chapterId w"
    with False have h: "faults (store w) = []"
      and bk: "find (\<lambda>b. b_id b = bookId) (books (store w)) \<noteq> None"
      and ch: "case chapterId of None \<Rightarrow> True | Some x \<Rightarrow> find (\<lambda>c. c_id c = x) (chapters (store w)) \<noteq> None"
      by (simp_all add: pageReady_def)
    let ?pd = "\<lparr>pd_book_id = bookId, pd_chapter_id = None, pd_name = basename d (extname d),
                pd_html = convertToHtml c (orElse (format opts) (detectFormat p)),
                pd_markdown = (if orElse (format opts) (detectFormat p) = ''markdown'' then Some c else None)\<rparr>"
    from createPage_ready[of "store w" ?pd] h bk obtain pg r1 where
      1: "createPage ?pd (store w) = (Inr pg, r1)"
      and 2: "faults r1 = []" "books r1 = books (store w)" "chapters r1 = chapters (store w)"
      by auto
    from 1 2 h bk ch False
    show "case createPageInBook bookId p c d opts w of
            (Inl e, s') \<Rightarrow> False
          | (Inr u, s') \<Rightarrow> pageReady opts bookId chapterId s'"
      by (simp add: createPageInBook_def Let_def onRemote_def pageReady_def split: option.splits)
  qed
qed

lemma completes_createPageInChapter:
  "completes (pageReady opts bookId (Some ch)) (createPageInChapter bookId ch p c d opts)
     (\<lambda>u. pageReady opts bookId (Some ch))"
proof (cases "dryRun opts")
  case True
  then show ?thesis
    by (simp add: completes_def pageReady_def createPageInChapter_def Let_def)
next
  case False
  show ?thesis
    unfolding completes_def
  proof (intro allI impI)
    fix w :: world
    assume "pageReady opts bookId (Some ch) w"
    with False have h: "faults (store w) = []"
      and bk: "find (\<lambda>b. b_id b = bookId) (books (store w)) \<noteq> None"
      and chp: "find (\<lambda>c. c_id c = ch) (chapters (store w)) \<noteq> None"
      by (simp_all add: pageReady_def)
    let ?pd = "\<lparr>pd_book_id = bookId, pd_chapter_id = Some ch, pd_name = basename d (extname d),
                pd_html = convertToHtml c (orElse (format opts) (detectFormat p)),
                pd_markdown = (if orElse (format opts) (detectFormat p) = ''markdown'' then Some c else None)\<rparr>"
    from createPage_ready[of "store w" ?pd] h bk chp obtain pg r1 where
      1: "createPage ?pd (store w) = (Inr pg, r1)"
      and 2: "faults r1 = []" "books r1 = books (store w)" "chapters r1 = chapters (store w)"
      by auto
    from 1 2 h bk chp False
    show "case createPageInChapter bookId ch p c d opts w of
            (Inl e, s') \<Rightarrow> False
          | (Inr u, s') \<Rightarrow> pageReady opts bookId (Some ch) s'"
      by (simp add: createPageInChapter_def Let_def onRemote_def pageReady_def)
  qed
qed

lemma find_not_None: "x \<in> set xs \<Longrightarrow> P x \<Longrightarrow> find P xs \<noteq> None"
  by (induction xs) auto

lemma find_SomeD_mem: "find P xs = Some x \<Longrightarrow> x \<in> set xs"
  by (induction xs) (auto split: if_splits)

lemma find_filter_SomeD: "find P (filter Q xs) = Some x \<Longrightarrow> x \<in> set xs"
  by (induction xs) (auto split: if_splits)

lemma getOrCreateChapter_healthy:
  assumes "faults r = []" and "find (\<lambda>b. b_id b = bookId) (books r) \<noteq> None"
  shows "\<exists>ch r1. getOrCreateChapter bookId name descr False r = (Inr ch, r1)
           \<and> faults r1 = [] \<and> books r1 = books r \<and> ch \<in> set (chapters r1)"
proof (cases "find (\<lambda>c. toLowerCase (c_name c) = toLowerCase name)
                (filter (\<lambda>c. c_book_id c = bookId) (chapters r))")
  case None
  with assms show ?thesis
    by (auto simp: getOrCreateChapter_def getChapters_eq createChapter_eq)
next
  case (Some found)
  then have "found \<in> set (chapters r)" by (rule find_filter_SomeD)
  with Some assms show ?thesis
    by (auto simp: getOrCreateChapter_def getChapters_eq)
qed

lemma getTargetBook_healthy:
  assumes "faults r = []"
  shows "\<exists>b r1. getTargetBook name False r = (Inr b, r1) \<and> faults r1 = [] \<and> b \<in> set (books r1)"
proof -
  let ?digits = "test False [Bol, Rep isDigit 1 None True False, Eol] name"
  let ?byId = "bookById (parseInt name) (books r)"
  let ?byName = "find (nameMatches name) (books r)"
  consider (byId) b where "?digits" "?byId = Some b"
    | (byName) b where "\<not> ?digits \<or> ?byId = None" "?byName = Some b"
    | (create) "\<not> ?digits \<or> ?byId = None" "?byName = None"
    by (cases ?byId; cases ?byName) auto
  then show ?thesis
  proof cases
    case byId
    from bookById_mem[OF byId(2)] byId assms show ?thesis
      by (simp add: getTargetBook_def getBook_eq)
  next
    case byName
    from find_SomeD_mem[OF byName(2)] byName assms show ?thesis
      by (auto simp: getTargetBook_def getBook_eq findBookByName_eq)
  next
    case create
    with assms show ?thesis
      by (auto simp: getTargetBook_def getBook_eq findBookByName_eq createBook_eq)
  qed
qed

lemma completes_getOrCreateChapter:
  "completes (pageReady opts bookId None)
     (onRemote (getOrCreateChapter bookId name descr (dryRun opts)))
     (\<lambda>chapter. pageReady opts bookId (Some (c_id chapter)))"
proof (cases "dryRun opts")
  case True
  then show ?thesis
    by (simp add: completes_def pageReady_def onRemote_def getOrCreateChapter_def)
next
  case False
  show ?thesis
    unfolding completes_def
  proof (intro allI impI)
    fix w :: world assume "pageReady opts bookId None w"
    with False have h: "faults (store w) = []" and bk: "find (\<lambda>b. b_id b = bookId) (books (store w)) \<noteq> None"
      by (simp_all add: pageReady_def)
    from getOrCreateChapter_healthy[OF h bk, of name descr] obtain ch r1 where
      1: "getOrCreateChapter bookId name descr False (store w) = (Inr ch, r1)"
      and 2: "faults r1 = []" "books r1 = books (store w)" "ch \<in> set (chapters r1)"
      by blast
    from 2(3) have "find (\<lambda>c. c_id c = c_id ch) (chapters r1) \<noteq> None"
      by (rule find_not_None) simp
    with 1 2 bk False
    show "case onRemote (getOrCreateChapter bookId name descr (dryRun opts)) w of
            (Inl e, s') \<Rightarrow> False
          | (Inr chapter, s') \<Rightarrow> pageReady opts bookId (Some (c_id chapter)) s'"
      by (simp add: onRemote_def pageReady_def)
  qed
qed

lemma completes_getTargetBook:
  "completes (\<lambda>w. dryRun opts \<or> faults (store w) = [])
     (onRemote (getTargetBook name (dryRun opts)))
     (\<lambda>bk. pageReady opts (b_id bk) None)"
proof (cases "dryRun opts")
  case True
  then show ?thesis
    by (simp add: completes_def pageReady_def onRemote_def getTargetBook_def)
next
  case False
  show ?thesis
    unfolding completes_def
  proof (intro allI impI)
    fix w :: world assume "dryRun opts \<or> faults (store w) = []"
    with False have h: "faults (store w) = []" by simp
    from getTargetBook_healthy[OF h, of name] obtain b r1 where
      1: "getTargetBook name False (store w) = (Inr b, r1)"
      and 2: "faults r1 = []" "b \<in> set (books r1)"
      by blast
    from 2(2) have "find (\<lambda>x. b_id x = b_id b) (books r1) \<noteq> None"
      by (rule find_not_None) simp
    with 1 2 False
    show "case onRemote (getTargetBook name (dryRun opts)) w of
            (Inl e, s') \<Rightarrow> False
          | (Inr bk, s') \<Rightarrow> pageReady opts (b_id bk) None s'"
      by (simp add: onRemote_def pageReady_def)
  qed
qed

lemma completes_if_callback:
  assumes "completes I m (\<lambda>u. I)"
  shows "completes I (\<lambda>w'. if \<not> isSupportedFile p then (Inr (), w') else m w') (\<lambda>u. I)"
proof (cases "isSupportedFile p")
  case True
  then show ?thesis using assms by (simp add: completes_def)
next
  case False
  then show ?thesis by (simp add: completes_def)
qed

lemma completes_importRootFiles:
  "completes (pageReady opts bookId None) (importRootFiles opts bookId dirPath items)
     (\<lambda>u. pageReady opts bookId None)"
proof (induction items)
  case Nil
  show ?case by (rule completes_cong[OF _ completes_return[of "\<lambda>u. pageReady opts bookId None" "()"]]) simp
next
  case (Cons item items)
  show ?case
  proof (cases item)
    case (File n c)
    show ?thesis
    proof (cases "isSupportedFile n")
      case True
      have "completes (pageReady opts bookId None)
              (\<lambda>w. case createPageInBook bookId (join dirPath n) c n opts w of
                     (Inl e, w') \<Rightarrow> (Inl e, w')
                   | (Inr u, w') \<Rightarrow> importRootFiles opts bookId dirPath items w')
              (\<lambda>u. pageReady opts bookId None)"
        by (rule completes_seq[OF completes_createPageInBook]) (rule Cons)
      then show ?thesis by (rule completes_cong[rotated]) (simp add: File True)
    next
      case False
      show ?thesis by (rule completes_cong[OF _ Cons]) (simp add: File False)
    qed
  next
    case (Dir n es)
    show ?thesis by (rule completes_cong[OF _ Cons]) (simp add: Dir)
  next
    case (Special n)
    show ?thesis by (rule completes_cong[OF _ Cons]) (simp add: Special)
  qed
qed

lemma chapterNameOf_resolves:
  assumes "truthy (m_name meta) \<or> chFrom \<noteq> ''readme''
           \<or> list_all (\<lambda>c. \<not> unreadable entries c) [''README.md'', ''Readme.md'', ''readme.md'', ''index.md'']"
  shows "\<exists>name. chapterNameOf meta chFrom item entries = Inr name"
proof (cases "truthy (m_name meta) \<or> chFrom \<noteq> ''readme''")
  case True
  then show ?thesis by (auto simp: chapterNameOf_def)
next
  case False
  with assms have "\<forall>c \<in> set [''README.md'', ''Readme.md'', ''readme.md'', ''index.md'']. \<not> unreadable entries c"
    by (simp add: list_all_iff)
  from deriveNameFrom_returns[OF this] obtain r where "deriveNameFromReadme entries = Inr r"
    by (auto simp: deriveNameFromReadme_def)
  with False show ?thesis by (simp add: chapterNameOf_def)
qed

lemma completes_subdir_step:
  assumes "flatten opts \<or> (\<exists>name. chapterNameOf meta chFrom item entries = Inr name)"
  shows "completes (pageReady opts bookId None)
      (\<lambda>w. if flatten opts then
           walkFiles itemPath entries (budget - 1)
             (\<lambda>filePath content w'.
                if \<not> isSupportedFile filePath then (Inr (), w')
                else createPageInBook bookId filePath content (basename filePath []) opts w') w
         else
           case chapterNameOf meta chFrom item entries of
             Inl e \<Rightarrow> (Inl e, w)
           | Inr chapterName \<Rightarrow>
               (case onRemote (getOrCreateChapter bookId chapterName descr (dryRun opts)) w of
                  (Inl e, w1) \<Rightarrow> (Inl e, w1)
                | (Inr chapter, w1) \<Rightarrow>
                    walkFiles itemPath entries (budget - 1)
                      (\<lambda>filePath content w'.
                         if \<not> isSupportedFile filePath then (Inr (), w')
                         else createPageInChapter bookId (c_id chapter) filePath content
                                (basename filePath []) opts w') w1))
      (\<lambda>u. pageReady opts bookId None)"
proof (cases "flatten opts")
  case True
  have "completes (pageReady opts bookId None)
          (walkFiles itemPath entries (budget - 1)
             (\<lambda>filePath content w'.
                if \<not> isSupportedFile filePath then (Inr (), w')
                else createPageInBook bookId filePath content (basename filePath []) opts w'))
          (\<lambda>u. pageReady opts bookId None)"
    by (rule completes_walkFiles) (rule completes_if_callback[OF completes_createPageInBook])
  then show ?thesis by (rule completes_cong[rotated]) (simp add: True)
next
  case False
  with assms obtain chapterName where nm: "chapterNameOf meta chFrom item entries = Inr chapterName"
    by blast
  have walk: "\<And>chapter :: chapterRec. completes (pageReady opts bookId (Some (c_id chapter)))
          (walkFiles itemPath entries (budget - 1)
                      (\<lambda>filePath content w'.
                         if \<not> isSupportedFile filePath then (Inr (), w')
                         else createPageInChapter bookId (c_id chapter) filePath content
                                (basename filePath []) opts w'))
          (\<lambda>u. pageReady opts bookId None)"
  proof -
    fix chp :: chapterRec
    have "completes (pageReady opts bookId (Some (c_id chp)))
          (walkFiles itemPath entries (budget - 1)
                      (\<lambda>filePath content w'.
                         if \<not> isSupportedFile filePath then (Inr (), w')
                         else createPageInChapter bookId (c_id chp) filePath content
                                (basename filePath []) opts w'))
          (\<lambda>u. pageReady opts bookId (Some (c_id chp)))"
      by (rule completes_walkFiles) (rule completes_if_callback[OF completes_createPageInChapter])
    then show "completes (pageReady opts bookId (Some (c_id chp)))
          (walkFiles itemPath entries (budget - 1)
                      (\<lambda>filePath content w'.
                         if \<not> isSupportedFile filePath then (Inr (), w')
                         else createPageInChapter bookId (c_id chp) filePath content
                                (basename filePath []) opts w'))
          (\<lambda>u. pageReady opts bookId None)"
      by (rule completes_weaken) (auto simp: pageReady_def)
  qed
  have "completes (pageReady opts bookId None)
          (\<lambda>w. case onRemote (getOrCreateChapter bookId chapterName descr (dryRun opts)) w of
                  (Inl e, w1) \<Rightarrow> (Inl e, w1)
                | (Inr chapter, w1) \<Rightarrow>
                    walkFiles itemPath entries (budget - 1)
                      (\<lambda>filePath content w'.
                         if \<not> isSupportedFile filePath then (Inr (), w')
                         else createPageInChapter bookId (c_id chapter) filePath content
                                (basename filePath []) opts w') w1)
          (\<lambda>u. pageReady opts bookId None)"
    by (rule completes_seq[OF completes_getOrCreateChapter walk])
  then show ?thesis by (rule completes_cong[rotated]) (simp add: False nm)
qed

lemma completes_importSubdirs:
  assumes "flatten opts \<or> namesResolve json opts items"
  shows "completes (pageReady opts bookId None) (importSubdirs json opts bookId dirPath items)
     (\<lambda>u. pageReady opts bookId None)"
  using assms
proof (induction items)
  case Nil
  show ?case by (rule completes_cong[OF _ completes_return[of "\<lambda>u. pageReady opts bookId None" "()"]]) simp
next
  case (Cons item items)
  from Cons.prems have tl: "flatten opts \<or> namesResolve json opts items"
    by (auto simp: namesResolve_def)
  note IH = Cons.IH[OF tl]
  show ?case
  proof (cases item)
    case (File n c)
    show ?thesis by (rule completes_cong[OF _ IH]) (simp add: File)
  next
    case (Special n)
    show ?thesis by (rule completes_cong[OF _ IH]) (simp add: Special)
  next
    case (Dir n entries)
    from Cons.prems Dir have "flatten opts \<or>
        (truthy (m_name (readChapterMetadata json entries)) \<or> orElse (chapterFrom opts) ''dir'' \<noteq> ''readme''
           \<or> list_all (\<lambda>c. \<not> unreadable entries c) [''README.md'', ''Readme.md'', ''readme.md'', ''index.md''])"
      by (auto simp: namesResolve_def)
    then have nm: "flatten opts \<or> (\<exists>name. chapterNameOf (readChapterMetadata json entries)
                      (orElse (chapterFrom opts) ''dir'') n entries = Inr name)"
      using chapterNameOf_resolves by blast
    have "completes (pageReady opts bookId None)
       (\<lambda>w. case (if flatten opts then
           walkFiles (join dirPath n) entries (effectiveMaxDepth opts - 1)
             (\<lambda>filePath content w'.
                if \<not> isSupportedFile filePath then (Inr (), w')
                else createPageInBook bookId filePath content (basename filePath []) opts w') w
         else
           case chapterNameOf (readChapterMetadata json entries) (orElse (chapterFrom opts) ''dir'') n entries of
             Inl e \<Rightarrow> (Inl e, w)
           | Inr chapterName \<Rightarrow>
               (case onRemote (getOrCreateChapter bookId chapterName
                       (orElse (m_description (readChapterMetadata json entries)) []) (dryRun opts)) w of
                  (Inl e, w1) \<Rightarrow> (Inl e, w1)
                | (Inr chapter, w1) \<Rightarrow>
                    walkFiles (join dirPath n) entries (effectiveMaxDepth opts - 1)
                      (\<lambda>filePath content w'.
                         if \<not> isSupportedFile filePath then (Inr (), w')
                         else createPageInChapter bookId (c_id chapter) filePath content
                                (basename filePath []) opts w') w1)) of
              (Inl e, w2) \<Rightarrow> (Inl e, w2)
            | (Inr u, w2) \<Rightarrow> importSubdirs json opts bookId dirPath items w2)
       (\<lambda>u. pageReady opts bookId None)"
      by (rule completes_seq[OF completes_subdir_step[OF nm]]) (rule IH)
    then show ?thesis by (rule completes_cong[rotated]) (simp add: Dir Let_def)
  qed
qed

lemma find_map_id:
  "(\<exists>y. find (\<lambda>b. b_id b = n) (map (\<lambda>x. if b_id x = k then x\<lparr>b_description := d\<rparr> else x) bs) = Some y)
     \<longleftrightarrow> (\<exists>y. find (\<lambda>b. b_id b = n) bs = Some y)"
  by (induction bs) auto

lemma pageReady_updateBook:
  "pageReady opts bookId None w \<Longrightarrow> pageReady opts bookId None (snd (onRemote (updateBook i d) w))"
  by (auto simp: pageReady_def onRemote_def updateBook_def request_def find_map_id
      split: prod.splits option.splits bool.splits)

lemma importDirectory_completes:
  assumes "dryRun opts \<or> faults (store w) = []" and "flatten opts \<or> namesResolve json opts items"
  shows "fst (importDirectory json dirPath items opts w) = Inr ()"
proof -
  let ?bookMeta = "readBookMetadata json items"
  let ?bookName = "orElse (book opts) (orElse (m_name ?bookMeta) (basename dirPath []))"
  let ?body = "\<lambda>(targetBook :: bookRec) w. case importRootFiles opts (b_id targetBook) dirPath items w of
                 (Inl e, w3) \<Rightarrow> (Inl e, w3)
               | (Inr u, w3) \<Rightarrow> importSubdirs json opts (b_id targetBook) dirPath items w3"
  let ?upd = "\<lambda>(targetBook :: bookRec) w1. (Inr () :: error + unit,
             if \<not> dryRun opts \<and> truthy (m_description ?bookMeta)
             then snd (onRemote (updateBook (b_id targetBook) (the (m_description ?bookMeta))) w1)
             else w1)"
  let ?k = "\<lambda>(targetBook :: bookRec) w1. case ?upd targetBook w1 of (Inl e, w') \<Rightarrow> (Inl e, w')
            | (Inr x, w') \<Rightarrow> ?body targetBook w'"
  have step: "\<And>targetBook :: bookRec. completes (pageReady opts (b_id targetBook) None) (?body targetBook)
                 (\<lambda>u w. True)"
  proof -
    fix targetBook :: bookRec
    have "completes (pageReady opts (b_id targetBook) None) (?body targetBook)
            (\<lambda>u. pageReady opts (b_id targetBook) None)"
      by (rule completes_seq[OF completes_importRootFiles completes_importSubdirs[OF assms(2)]])
    then show "completes (pageReady opts (b_id targetBook) None) (?body targetBook) (\<lambda>u w. True)"
      by (rule completes_weaken) simp_all
  qed
  have kupd: "\<And>targetBook :: bookRec. completes (pageReady opts (b_id targetBook) None) (?upd targetBook)
                 (\<lambda>u. pageReady opts (b_id targetBook) None)"
    by (rule completesI) (simp add: pageReady_updateBook)
  have k: "\<And>targetBook :: bookRec. completes (pageReady opts (b_id targetBook) None) (?k targetBook) (\<lambda>u w. True)"
    by (rule completes_seq[OF kupd step])
  have all: "completes (\<lambda>w. dryRun opts \<or> faults (store w) = [])
                (\<lambda>w. case onRemote (getTargetBook ?bookName (dryRun opts)) w of
                        (Inl e, w1) \<Rightarrow> (Inl e, w1)
                      | (Inr targetBook, w1) \<Rightarrow> ?k targetBook w1) (\<lambda>u w. True)"
    by (rule completes_seq[OF completes_getTargetBook k])
  have "completes (\<lambda>w. dryRun opts \<or> faults (store w) = []) (importDirectory json dirPath items opts) (\<lambda>u w. True)"
    by (rule completes_cong[OF _ all]) (simp add: importDirectory_def Let_def split: prod.splits sum.splits)
  from completesD[OF this assms(1)] show ?thesis by auto
qed

section \<open>Pages in flatten mode\<close>

lemma createdPages_append [simp]: "createdPages (xs @ ys) = createdPages xs @ createdPages ys"
  by (simp add: createdPages_def)

lemma createdPages_simps [simp]:
  "createdPages [] = []" "createdPages (CreatePage d # cs) = d # createdPages cs"
  "createdPages (TestConnection # cs) = createdPages cs" "createdPages (GetBooks # cs) = createdPages cs"
  "createdPages (GetBook x # cs) = createdPages cs" "createdPages (CreateBook n1 d1 # cs) = createdPages cs"
  "createdPages (UpdateBook i d2 # cs) = createdPages cs" "createdPages (GetChapters i # cs) = createdPages cs"
  "createdPages (CreateChapter i n2 d3 # cs) = createdPages cs"
  by (simp_all add: createdPages_def)

lemma sent_getTargetBook: "keeps (\<lambda>r. createdPages (calls r)) (getTargetBook name dry)"
  by (auto simp: keeps_def getTargetBook_def getBook_eq findBookByName_eq createBook_eq
      split: option.splits)

lemma sent_updateBook: "keeps (\<lambda>r. createdPages (calls r)) (updateBook i d)"
  by (auto simp: keeps_def updateBook_def request_def split: option.splits bool.splits)

lemma aligned_onRemote: "keeps (\<lambda>r. createdPages (calls r)) f \<Longrightarrow> keeps aligned (onRemote f)"
  by (rule keeps_onRemote[where g = "\<lambda>v i. map sentPage i = map pageKey v"]) (simp_all add: aligned_def)

lemma aligned_createPageInBook:
  assumes "\<not> dryRun opts"
  shows "keeps aligned (createPageInBook b p c d opts)"
  unfolding keeps_def
proof
  fix w :: world
  let ?w0 = "w\<lparr>invoked := invoked w @ [InBook b p d]\<rparr>"
  let ?pd = "\<lparr>pd_book_id = b, pd_chapter_id = None, pd_name = basename d (extname d),
              pd_html = convertToHtml c (orElse (format opts) (detectFormat p)),
              pd_markdown = (if orElse (format opts) (detectFormat p) = ''markdown'' then Some c else None)\<rparr>"
  let ?w1 = "snd (onRemote (createPage ?pd) ?w0)"
  have s: "snd (createPageInBook b p c d opts w) = ?w1"
    using assms by (simp add: createPageInBook_def Let_def split: prod.splits sum.splits)
  have i: "invoked ?w1 = invoked w @ [InBook b p d]"
    by (simp add: onRemote_def split: prod.splits)
  have cl: "calls (store ?w1) = calls (store w) @ [CreatePage ?pd]"
    by (simp add: calls_onRemote calls_createPage)
  show "aligned (snd (createPageInBook b p c d opts w)) = aligned w"
    by (simp only: s aligned_def i cl) (simp add: sentPage_def pageKey_def)
qed

lemma flatten_keeps_aligned:
  assumes "flatten opts" and "\<not> dryRun opts"
  shows "keeps aligned (importDirectory json dirPath items opts)"
proof -
  have ch: "\<not> flatten opts \<Longrightarrow> (\<forall>b ch p c d. keeps aligned (createPageInChapter b ch p c d opts))
                \<and> (\<forall>b n d. keeps aligned (onRemote (getOrCreateChapter b n d (dryRun opts))))"
    using assms by simp
  have tb: "\<And>name. keeps aligned (onRemote (getTargetBook name (dryRun opts)))"
    by (rule aligned_onRemote[OF sent_getTargetBook])
  have ub: "\<not> dryRun opts \<Longrightarrow> (\<forall>i d. keeps aligned (onRemote (updateBook i d)))"
    using aligned_onRemote[OF sent_updateBook] by simp
  show ?thesis
    by (rule keeps_importDirectory[OF aligned_createPageInBook[OF assms(2)] ch tb ub])
qed

lemma execute_dir:
  assumes "fsys sourcePath = Some (Dir n items)"
  shows "\<exists>w1. invoked w1 = invoked w \<and> aligned w1 = aligned w \<and> faults (store w1) = faults (store w)
           \<and> (execute json fsys sourcePath opts w = importDirectory json sourcePath items opts w1
              \<or> (\<not> dryRun opts \<and> faults (store w) \<noteq> []
                  \<and> (\<exists>e. execute json fsys sourcePath opts w = (Inl e, w1))))"
proof (cases "dryRun opts")
  case True
  then have "execute json fsys sourcePath opts w = importDirectory json sourcePath items opts w"
    by (simp add: execute_def assms)
  then show ?thesis by blast
next
  case False
  let ?w1 = "w\<lparr>store := snd (request TestConnection (store w))\<rparr>"
  have c: "onRemote testConnection w = (Inr (length (calls (store w)) \<notin> set (faults (store w))), ?w1)"
    by (simp add: onRemote_def testConnection_def request_def)
  have 1: "invoked ?w1 = invoked w" "aligned ?w1 = aligned w" "faults (store ?w1) = faults (store w)"
    by (simp_all add: aligned_def)
  show ?thesis
  proof (cases "length (calls (store w)) \<in> set (faults (store w))")
    case True
    then have "faults (store w) \<noteq> []" by auto
    moreover have "\<exists>e. execute json fsys sourcePath opts w = (Inl e, ?w1)"
      using False True by (simp add: execute_def assms c)
    ultimately show ?thesis using 1 False by blast
  next
    case nf: False
    have "execute json fsys sourcePath opts w = importDirectory json sourcePath items opts ?w1"
      using False nf by (simp add: execute_def assms c)
    with 1 show ?thesis by blast
  qed
qed

chapter \<open>The claims\<close>

section \<open>Count pass and execute pass\<close>

text \<open>
  Claim C1.  For every directory tree and fixed options (so fixed \<open>flatten\<close> and \<open>maxDepth\<close>),
  the number that \<open>countFiles\<close> returns is the number of invocations of \<open>createPageInBook\<close>
  and \<open>createPageInChapter\<close> that \<open>importDirectory\<close> performs over the same tree, when the
  import runs to its end; an import that a rejection ends has performed at most that many.
  The import runs to its end when it is a dry run or the transport does not fail, and the
  chapter names can be worked out.
\<close>

theorem count_execute_parity:
  assumes "importDirectory json dirPath items opts w = (res, w')"
  shows "length (invoked w') \<le> length (invoked w) + countFiles dirPath items opts
         \<and> (res = Inr () \<longrightarrow> length (invoked w') = length (invoked w) + countFiles dirPath items opts)
         \<and> ((dryRun opts \<or> faults (store w) = []) \<and> (flatten opts \<or> namesResolve json opts items)
              \<longrightarrow> res = Inr ())"
proof -
  from emits_importDirectory[of json dirPath items opts] assms
  obtain new rest where 1: "invoked w' = invoked w @ new"
      and 2: "planned opts dirPath items = map invocationPath new @ rest"
      and 3: "res = Inr () \<longrightarrow> rest = []"
    unfolding emits_def by (metis fst_conv snd_conv)
  from 2 have "length (planned opts dirPath items) = length new + length rest"
    by (metis length_append length_map)
  moreover have "(dryRun opts \<or> faults (store w) = []) \<and> (flatten opts \<or> namesResolve json opts items)
              \<longrightarrow> res = Inr ()"
    using importDirectory_completes[of opts w json items dirPath] assms by auto
  ultimately show ?thesis using 1 3 by (auto simp: countFiles_planned)
qed

theorem count_execute_parity_witness:
  "faults (store exWorld) = [] \<and> namesResolve exJson exOpts exTree
   \<and> fst (importDirectory exJson ''/work/examples'' exTree exOpts exWorld) = Inr ()
   \<and> countFiles ''/work/examples'' exTree exOpts = 4
   \<and> length (invoked (snd (importDirectory exJson ''/work/examples'' exTree exOpts exWorld)))
       = length (invoked exWorld) + countFiles ''/work/examples'' exTree exOpts"
proof -
  have a: "faults (store exWorld) = []" by (simp add: exWorld_def exRemote_def)
  have b: "namesResolve exJson exOpts exTree" by code_simp
  have c: "countFiles ''/work/examples'' exTree exOpts = 4" by code_simp
  have d: "importDirectory exJson ''/work/examples'' exTree exOpts exWorld
      = (fst (importDirectory exJson ''/work/examples'' exTree exOpts exWorld),
         snd (importDirectory exJson ''/work/examples'' exTree exOpts exWorld))"
    by simp
  from count_execute_parity[OF d] a b c show ?thesis by simp
qed

section \<open>Dry run\<close>

text \<open>
  Claim C2.  With \<open>dryRun\<close> set, \<open>ImportCommand.execute\<close> leaves the remote store and its
  transport as they were, for every source and every other option: no client method is
  called at all, so no \<open>createBook\<close>, \<open>createChapter\<close>, \<open>createPage\<close> or \<open>updateBook\<close>.
\<close>

theorem dry_run_issues_no_writes:
  assumes "dryRun opts"
  shows "store (snd (execute json fsys sourcePath opts w)) = store w
         \<and> filter isWrite (calls (store (snd (execute json fsys sourcePath opts w)))) = filter isWrite (calls (store w))"
proof -
  have tb: "\<And>name. keeps store (onRemote (getTargetBook name (dryRun opts)))"
    using assms dry_getTargetBook by simp
  have ch: "\<not> flatten opts \<Longrightarrow> (\<forall>b ch p c d. keeps store (createPageInChapter b ch p c d opts))
                \<and> (\<forall>b n d. keeps store (onRemote (getOrCreateChapter b n d (dryRun opts))))"
    using assms dry_createPageInChapter dry_getOrCreateChapter by simp
  have ub: "\<not> dryRun opts \<Longrightarrow> (\<forall>i d. keeps store (onRemote (updateBook i d)))"
    using assms by simp
  have d: "\<And>items. keeps store (importDirectory json sourcePath items opts)"
    by (rule keeps_importDirectory[OF dry_createPageInBook[OF assms] ch tb ub])
  have tc: "\<not> dryRun opts \<Longrightarrow> keeps store (onRemote testConnection)"
    using assms by simp
  have "keeps store (execute json fsys sourcePath opts)"
    by (rule keeps_execute[OF tc dry_importFile[OF assms] d])
  then have "store (snd (execute json fsys sourcePath opts w)) = store w"
    by (simp add: keeps_def)
  then show ?thesis by simp
qed

theorem dry_run_issues_no_writes_witness:
  "store (snd (execute exJson exFs ''/work/examples'' (exOpts\<lparr>dryRun := True\<rparr>) exWorld)) = store exWorld
   \<and> filter isWrite (calls (store (snd (execute exJson exFs ''/work/examples'' (exOpts\<lparr>dryRun := True\<rparr>) exWorld))))
       = filter isWrite (calls (store exWorld))
   \<and> length (invoked (snd (execute exJson exFs ''/work/examples'' (exOpts\<lparr>dryRun := True\<rparr>) exWorld))) = 4"
proof -
  have a: "dryRun (exOpts\<lparr>dryRun := True\<rparr>)" by simp
  have b: "length (invoked (snd (execute exJson exFs ''/work/examples'' (exOpts\<lparr>dryRun := True\<rparr>) exWorld))) = 4"
    by code_simp
  from dry_run_issues_no_writes[OF a, of exJson exFs "''/work/examples''" exWorld] b
  show ?thesis by simp
qed


section \<open>Flatten mode\<close>

text \<open>
  Claim C3, as amended.  For every directory tree with at least one subdirectory, an import
  run with \<open>flatten\<close> set never calls \<open>createChapter\<close> (nor \<open>getChapters\<close>): no chapter is created,
  and no page is stored inside a chapter.  Every supported file of the root, and then every
  supported file that lies at most \<open>max(0, maxDepth - 1)\<close> folders below a first-level
  subdirectory, is handed to \<open>createPageInBook\<close>, in the order of the walk: all of them when
  the run comes to its end, a first part of them when a rejection ends it; no file is
  handed to \<open>createPageInChapter\<close>.  Outside a dry run every such invocation sends one
  \<open>createPage\<close> request, for the book and without a chapter.  The run comes to its end when
  it is a dry run or the transport rejects no request.  A file nested deeper gets no page.
\<close>

theorem flatten_never_creates_chapter:
  assumes "flatten opts" and "fsys sourcePath = Some (Dir n items)" and "\<exists>d es. Dir d es \<in> set items"
    and "execute json fsys sourcePath opts w = (res, w')"
  shows "filter isChapterCall (calls (store w')) = filter isChapterCall (calls (store w))
         \<and> chapters (store w') = chapters (store w)
         \<and> filter isInChapter (invoked w') = filter isInChapter (invoked w)
         \<and> filter inChapterPage (pages (store w')) = filter inChapterPage (pages (store w))
         \<and> (\<exists>new rest. invoked w' = invoked w @ new \<and> filter isInChapter new = []
               \<and> planned opts sourcePath items = map invocationPath new @ rest
               \<and> (res = Inr () \<longrightarrow> rest = []))
         \<and> (\<not> dryRun opts \<and> aligned w \<longrightarrow> aligned w')
         \<and> (dryRun opts \<or> faults (store w) = [] \<longrightarrow> res = Inr ())"
proof -
  from keepsD[OF flatten_keeps_chapterView[OF assms(1)] assms(4)]
  have "chapterView w' = chapterView w" .
  then have frame: "filter isChapterCall (calls (store w')) = filter isChapterCall (calls (store w))"
      "chapters (store w') = chapters (store w)"
      "filter isInChapter (invoked w') = filter isInChapter (invoked w)"
      "filter inChapterPage (pages (store w')) = filter inChapterPage (pages (store w))"
    by (simp_all add: chapterView_def remoteChapterView_def)
  from execute_dir[where fsys = fsys and sourcePath = sourcePath and w = w and json = json and opts = opts,
      OF assms(2)] obtain w1 where
    w1: "invoked w1 = invoked w" "aligned w1 = aligned w" "faults (store w1) = faults (store w)"
    and ex: "execute json fsys sourcePath opts w = importDirectory json sourcePath items opts w1
              \<or> (\<not> dryRun opts \<and> faults (store w) \<noteq> []
                  \<and> (\<exists>e. execute json fsys sourcePath opts w = (Inl e, w1)))"
    by blast
  have em: "\<exists>new rest. invoked w' = invoked w @ new
               \<and> planned opts sourcePath items = map invocationPath new @ rest
               \<and> (res = Inr () \<longrightarrow> rest = [])"
    using ex
  proof
    assume "execute json fsys sourcePath opts w = importDirectory json sourcePath items opts w1"
    with assms(4) have r: "importDirectory json sourcePath items opts w1 = (res, w')" by simp
    from emits_importDirectory[of json sourcePath items opts] r w1(1) show ?thesis
      unfolding emits_def by (metis fst_conv snd_conv)
  next
    assume "\<not> dryRun opts \<and> faults (store w) \<noteq> []
                  \<and> (\<exists>e. execute json fsys sourcePath opts w = (Inl e, w1))"
    with assms(4) w1(1) have "invoked w' = invoked w @ []" "res \<noteq> Inr ()" by auto
    then show ?thesis by blast
  qed
  then obtain new rest where nr: "invoked w' = invoked w @ new"
      "planned opts sourcePath items = map invocationPath new @ rest" "res = Inr () \<longrightarrow> rest = []"
    by blast
  from frame(3) nr(1) have "filter isInChapter new = []" by simp
  with nr have positive: "\<exists>new rest. invoked w' = invoked w @ new \<and> filter isInChapter new = []
               \<and> planned opts sourcePath items = map invocationPath new @ rest
               \<and> (res = Inr () \<longrightarrow> rest = [])"
    by blast
  have al: "\<not> dryRun opts \<and> aligned w \<longrightarrow> aligned w'"
  proof
    assume a: "\<not> dryRun opts \<and> aligned w"
    from ex show "aligned w'"
    proof
      assume "execute json fsys sourcePath opts w = importDirectory json sourcePath items opts w1"
      with assms(4) have r: "importDirectory json sourcePath items opts w1 = (res, w')" by simp
      from a have "keeps aligned (importDirectory json sourcePath items opts)"
        by (intro flatten_keeps_aligned[OF assms(1)]) simp
      from keepsD[OF this r] a w1(2) show ?thesis by simp
    next
      assume "\<not> dryRun opts \<and> faults (store w) \<noteq> []
                  \<and> (\<exists>e. execute json fsys sourcePath opts w = (Inl e, w1))"
      with assms(4) a w1(2) show ?thesis by auto
    qed
  qed
  have fin: "dryRun opts \<or> faults (store w) = [] \<longrightarrow> res = Inr ()"
  proof
    assume h: "dryRun opts \<or> faults (store w) = []"
    from ex show "res = Inr ()"
    proof
      assume e: "execute json fsys sourcePath opts w = importDirectory json sourcePath items opts w1"
      from h w1(3) have "dryRun opts \<or> faults (store w1) = []" by simp
      from importDirectory_completes[OF this, of json items sourcePath] assms(1)
      have "fst (importDirectory json sourcePath items opts w1) = Inr ()" by simp
      moreover from e assms(4) have "importDirectory json sourcePath items opts w1 = (res, w')" by simp
      ultimately show ?thesis by simp
    next
      assume "\<not> dryRun opts \<and> faults (store w) \<noteq> []
                  \<and> (\<exists>e. execute json fsys sourcePath opts w = (Inl e, w1))"
      with h show ?thesis by simp
    qed
  qed
  from frame positive al fin show ?thesis by blast
qed

theorem flatten_never_creates_chapter_witness:
  "flatten (exOpts\<lparr>flatten := True\<rparr>) \<and> exFs ''/work/examples'' = Some (Dir ''examples'' exTree)
   \<and> (\<exists>d es. Dir d es \<in> set exTree)
   \<and> \<not> dryRun (exOpts\<lparr>flatten := True\<rparr>) \<and> faults (store exWorld) = [] \<and> aligned exWorld
   \<and> fst (execute exJson exFs ''/work/examples'' (exOpts\<lparr>flatten := True\<rparr>) exWorld) = Inr ()
   \<and> planned (exOpts\<lparr>flatten := True\<rparr>) ''/work/examples'' exTree
       = [''/work/examples/readme.md'', ''/work/examples/Intro/page1.md'',
          ''/work/examples/Intro/deep/d.md'', ''/work/examples/Intro/deep/deeper/e.txt'']
   \<and> map invocationPath (invoked (snd (execute exJson exFs ''/work/examples'' (exOpts\<lparr>flatten := True\<rparr>) exWorld)))
       = planned (exOpts\<lparr>flatten := True\<rparr>) ''/work/examples'' exTree
   \<and> filter isChapterCall (calls (store (snd (execute exJson exFs ''/work/examples'' (exOpts\<lparr>flatten := True\<rparr>) exWorld)))) = []
   \<and> chapters (store (snd (execute exJson exFs ''/work/examples'' (exOpts\<lparr>flatten := True\<rparr>) exWorld))) = []
   \<and> filter isInChapter (invoked (snd (execute exJson exFs ''/work/examples'' (exOpts\<lparr>flatten := True\<rparr>) exWorld))) = []
   \<and> filter inChapterPage (pages (store (snd (execute exJson exFs ''/work/examples'' (exOpts\<lparr>flatten := True\<rparr>) exWorld)))) = []
   \<and> aligned (snd (execute exJson exFs ''/work/examples'' (exOpts\<lparr>flatten := True\<rparr>) exWorld))
   \<and> map pageKey (createdPages (calls (store (snd (execute exJson exFs ''/work/examples'' (exOpts\<lparr>flatten := True\<rparr>) exWorld)))))
       = [(1, None, ''readme''), (1, None, ''page1''), (1, None, ''d''), (1, None, ''e'')]"
proof -
  let ?opts = "exOpts\<lparr>flatten := True\<rparr>"
  let ?run = "execute exJson exFs ''/work/examples'' ?opts exWorld"
  have a: "flatten ?opts" by simp
  have b: "exFs ''/work/examples'' = Some (Dir ''examples'' exTree)" by (simp add: exFs_def)
  have c: "\<exists>d es. Dir d es \<in> set exTree" by (auto simp: exTree_def)
  have d: "?run = (fst ?run, snd ?run)" by simp
  have e: "\<not> dryRun ?opts" by (simp add: exOpts_def)
  have f: "faults (store exWorld) = []" by (simp add: exWorld_def exRemote_def)
  have g: "calls (store exWorld) = []" "chapters (store exWorld) = []" "invoked exWorld = []"
      "pages (store exWorld) = []"
    by (simp_all add: exWorld_def exRemote_def)
  have h: "aligned exWorld" by (simp add: aligned_def g createdPages_def)
  have i: "planned ?opts ''/work/examples'' exTree
       = [''/work/examples/readme.md'', ''/work/examples/Intro/page1.md'',
          ''/work/examples/Intro/deep/d.md'', ''/work/examples/Intro/deep/deeper/e.txt'']"
    by code_simp
  have j: "map pageKey (createdPages (calls (store (snd ?run))))
       = [(1, None, ''readme''), (1, None, ''page1''), (1, None, ''d''), (1, None, ''e'')]"
    by code_simp
  note t = flatten_never_creates_chapter[OF a b c d]
  from t e f have k: "fst ?run = Inr ()" by blast
  from t h e have l: "aligned (snd ?run)" by blast
  from t k g(3) have m: "map invocationPath (invoked (snd ?run)) = planned ?opts ''/work/examples'' exTree"
    by auto
  from t have
    "filter isChapterCall (calls (store (snd ?run))) = []" "chapters (store (snd ?run)) = []"
    "filter isInChapter (invoked (snd ?run)) = []" "filter inChapterPage (pages (store (snd ?run))) = []"
    by (simp_all only: g filter.simps)
  with a b c e f h i j k l m show ?thesis by blast
qed

text \<open>
  The claim C3 as stated fails in its second part.  With \<open>flatten\<close> and \<open>maxDepth = 1\<close> the
  import of the example runs to its end, and \<open>d.md\<close>, a supported file one folder below the
  first-level subdirectory \<open>Intro\<close>, is handed to no page creation and no page is sent for
  it: not all files map to pages of the book.
\<close>

theorem flatten_drops_deep_file_counterexample:
  "flatten (exOpts\<lparr>flatten := True, maxDepth := Some 1\<rparr>)
   \<and> isSupportedFile ''/work/examples/Intro/deep/d.md''
   \<and> (2, ''/work/examples/Intro/deep/d.md'', ''x'') \<in> set (located ''/work/examples'' exTree)
   \<and> fst (execute exJson exFs ''/work/examples'' (exOpts\<lparr>flatten := True, maxDepth := Some 1\<rparr>) exWorld) = Inr ()
   \<and> invoked (snd (execute exJson exFs ''/work/examples'' (exOpts\<lparr>flatten := True, maxDepth := Some 1\<rparr>) exWorld))
       = [InBook 1 ''/work/examples/readme.md'' ''readme.md'',
          InBook 1 ''/work/examples/Intro/page1.md'' ''page1.md'']
   \<and> map pd_name (createdPages (calls (store (snd (execute exJson exFs ''/work/examples''
          (exOpts\<lparr>flatten := True, maxDepth := Some 1\<rparr>) exWorld)))))
       = [''readme'', ''page1'']"
proof -
  let ?run = "execute exJson exFs ''/work/examples'' (exOpts\<lparr>flatten := True, maxDepth := Some 1\<rparr>) exWorld"
  have a: "flatten (exOpts\<lparr>flatten := True, maxDepth := Some 1\<rparr>)" by simp
  have b: "isSupportedFile ''/work/examples/Intro/deep/d.md''" by code_simp
  have c: "(2, ''/work/examples/Intro/deep/d.md'', ''x'') \<in> set (located ''/work/examples'' exTree)"
    by code_simp
  have d: "fst ?run = Inr ()" by code_simp
  have e: "invoked (snd ?run)
       = [InBook 1 ''/work/examples/readme.md'' ''readme.md'',
          InBook 1 ''/work/examples/Intro/page1.md'' ''page1.md'']"
    by code_simp
  have f: "map pd_name (createdPages (calls (store (snd ?run)))) = [''readme'', ''page1'']"
    by code_simp
  from a b c d e f show ?thesis by blast
qed


section \<open>The depth budget\<close>




text \<open>
  Claim C5, as amended.  For every tree and budget the walker hands to its callback
  exactly the files that lie at most \<open>max 0 depth\<close> folders below the root of the walk, in
  the order of the walk, until the callback is rejected.  At remaining depth 0 it does not
  descend and still emits the files of that level.  A file inside a folder nested beyond
  the budget is not emitted.
\<close>

theorem walker_depth_budget:
  "walkFiles root entries depth onFile s
     = forEach (\<lambda>(p, c). onFile p c) (withinDepth (max 0 depth) (located root entries)) s
   \<and> walk onFile root entries 0 s = forEach (\<lambda>(p, c). onFile p c) (directFiles root entries) s
   \<and> withinDepth 0 (located root entries) = directFiles root entries"
  using walk_forEach[of 0 onFile root entries s]
  by (simp add: walkFiles_forEach withinDepth_0_located)

text \<open>
  The claim C5 as stated fails: with \<open>maxDepth = 1\<close> the import of the example runs to its
  end, and \<open>d.md\<close>, a supported file one folder below the chapter directory \<open>Intro\<close>, gets
  no page: it is dropped, not flattened into the chapter.
\<close>

theorem beyond_budget_dropped_counterexample:
  "isSupportedFile ''/work/examples/Intro/deep/d.md''
   \<and> (2, ''/work/examples/Intro/deep/d.md'', ''x'') \<in> set (located ''/work/examples'' exTree)
   \<and> fst (importDirectory exJson ''/work/examples'' exTree (exOpts\<lparr>maxDepth := Some 1\<rparr>) exWorld) = Inr ()
   \<and> map invocationPath
        (invoked (snd (importDirectory exJson ''/work/examples'' exTree (exOpts\<lparr>maxDepth := Some 1\<rparr>) exWorld)))
      = [''/work/examples/readme.md'', ''/work/examples/Intro/page1.md'']"
proof -
  have a: "isSupportedFile ''/work/examples/Intro/deep/d.md''" by code_simp
  have b: "(2, ''/work/examples/Intro/deep/d.md'', ''x'') \<in> set (located ''/work/examples'' exTree)"
    by code_simp
  have c: "fst (importDirectory exJson ''/work/examples'' exTree (exOpts\<lparr>maxDepth := Some 1\<rparr>) exWorld) = Inr ()"
    by code_simp
  have d: "map invocationPath
        (invoked (snd (importDirectory exJson ''/work/examples'' exTree (exOpts\<lparr>maxDepth := Some 1\<rparr>) exWorld)))
      = [''/work/examples/readme.md'', ''/work/examples/Intro/page1.md'']"
    by code_simp
  from a b c d show ?thesis by blast
qed


section \<open>Idempotent reconciliation\<close>

text \<open>
  Claim C6, as amended.  With a transport that rejects no request, \<open>getTargetBook\<close> returns a
  book, and called again with the same name on the remote state it left, it returns the same
  book and makes no create or update call; \<open>getOrCreateChapter\<close>, for a book that exists (or
  in a dry run), returns a chapter, and called again on the state it left it returns the
  same chapter and makes no create or update call.
\<close>

theorem reconcilers_idempotent:
  assumes "faults r = []"
  shows "(\<exists>b r1 r2. getTargetBook name dry r = (Inr b, r1) \<and> getTargetBook name dry r1 = (Inr b, r2)
            \<and> filter isWrite (calls r2) = filter isWrite (calls r1) \<and> books r2 = books r1)
       \<and> (dry \<or> find (\<lambda>b. b_id b = bookId) (books r) \<noteq> None
            \<longrightarrow> (\<exists>ch r1 r2. getOrCreateChapter bookId cname descr dry r = (Inr ch, r1)
                   \<and> getOrCreateChapter bookId cname descr dry r1 = (Inr ch, r2)
                   \<and> filter isWrite (calls r2) = filter isWrite (calls r1) \<and> chapters r2 = chapters r1))"
proof -
  have "dry \<or> find (\<lambda>b. b_id b = bookId) (books r) \<noteq> None
            \<Longrightarrow> (\<exists>ch r1 r2. getOrCreateChapter bookId cname descr dry r = (Inr ch, r1)
                   \<and> getOrCreateChapter bookId cname descr dry r1 = (Inr ch, r2)
                   \<and> filter isWrite (calls r2) = filter isWrite (calls r1) \<and> chapters r2 = chapters r1)"
  proof -
    assume "dry \<or> find (\<lambda>b. b_id b = bookId) (books r) \<noteq> None"
    from getOrCreateChapter_succeeds[OF assms this] obtain ch r1 where
      1: "getOrCreateChapter bookId cname descr dry r = (Inr ch, r1)" by blast
    from getOrCreateChapter_idempotent[OF assms 1] 1 show ?thesis by blast
  qed
  with getTargetBook_idempotent[OF assms] show ?thesis by blast
qed

theorem reconcilers_idempotent_witness:
  "faults exStore = []
   \<and> filter isWrite (calls (snd (getTargetBook ''New Book'' False exStore)))
       = [CreateBook ''New Book'' ''Book created by bookstack-cli import'']
   \<and> (\<exists>b r1 r2. getTargetBook ''New Book'' False exStore = (Inr b, r1)
          \<and> getTargetBook ''New Book'' False r1 = (Inr b, r2)
          \<and> filter isWrite (calls r2) = filter isWrite (calls r1) \<and> books r2 = books r1)
   \<and> (\<exists>ch r1 r2. getOrCreateChapter 7 ''Intro'' [] False exStore = (Inr ch, r1)
          \<and> getOrCreateChapter 7 ''Intro'' [] False r1 = (Inr ch, r2)
          \<and> filter isWrite (calls r2) = filter isWrite (calls r1) \<and> chapters r2 = chapters r1)"
proof -
  have a: "faults exStore = []" by (simp add: exStore_def)
  have b: "find (\<lambda>b. b_id b = 7) (books exStore) \<noteq> None" by (simp add: exStore_def exBook_def)
  have c: "filter isWrite (calls (snd (getTargetBook ''New Book'' False exStore)))
       = [CreateBook ''New Book'' ''Book created by bookstack-cli import'']"
    by code_simp
  from reconcilers_idempotent[OF a, of "''New Book''" False 7 "''Intro''" "[]"] a b c
  show ?thesis by simp
qed


text \<open>
  The claim C6 as stated fails when the transport rejects a request.  The store holds one
  book, under the id 7, and the first request is rejected.  \<open>getTargetBook\<close> for the name \<open>7\<close>
  drops the failure of the lookup by id, finds no book of that name and creates one, which
  gets the id 8; called again on the state it left, it finds the book under the id 7.  Both
  calls return a book, and the two books differ.
\<close>

theorem rejected_lookup_breaks_idempotence_counterexample:
  "bookById (Finite 7) (books (exStore\<lparr>faults := [0]\<rparr>)) = Some exBook
   \<and> fst (getTargetBook ''7'' False (exStore\<lparr>faults := [0]\<rparr>))
       = Inr \<lparr>b_id = 8, b_name = ''7'', b_slug = ''7'',
              b_description = Some ''Book created by bookstack-cli import''\<rparr>
   \<and> calls (snd (getTargetBook ''7'' False (exStore\<lparr>faults := [0]\<rparr>)))
       = [GetBook (Finite 7), GetBooks, CreateBook ''7'' ''Book created by bookstack-cli import'']
   \<and> fst (getTargetBook ''7'' False (snd (getTargetBook ''7'' False (exStore\<lparr>faults := [0]\<rparr>))))
       = Inr exBook
   \<and> b_id exBook = 7"
proof -
  have a: "bookById (Finite 7) (books (exStore\<lparr>faults := [0]\<rparr>)) = Some exBook"
    by (simp add: bookById_def exStore_def exBook_def)
  have b: "fst (getTargetBook ''7'' False (exStore\<lparr>faults := [0]\<rparr>))
       = Inr \<lparr>b_id = 8, b_name = ''7'', b_slug = ''7'',
              b_description = Some ''Book created by bookstack-cli import''\<rparr>"
    by code_simp
  have c: "calls (snd (getTargetBook ''7'' False (exStore\<lparr>faults := [0]\<rparr>)))
       = [GetBook (Finite 7), GetBooks, CreateBook ''7'' ''Book created by bookstack-cli import'']"
    by code_simp
  have d: "fst (getTargetBook ''7'' False (snd (getTargetBook ''7'' False (exStore\<lparr>faults := [0]\<rparr>))))
       = Inr exBook"
    by code_simp
  have e: "b_id exBook = 7" by (simp add: exBook_def)
  from a b c d e show ?thesis by blast
qed


section \<open>Lookup of a numeric book identifier\<close>

text \<open>
  Claim C7.  For a book identifier made only of digits, \<open>getTargetBook\<close> (outside a dry run)
  first calls \<open>getBook\<close> with the number that \<open>parseInt\<close> gives for it (the integer that the
  digits denote when it lies below \<open>2^53\<close>, and else the nearest number).  When that lookup gives
  the book, it is the result.  When the lookup fails, by a missing id or by a failure of the
  transport, the failure is dropped and \<open>findBookByName\<close> lists the books: the first book whose
  name or slug equals the identifier up to case is the result, and when there is none a book
  with the identifier as its name and the description \<open>Book created by bookstack-cli import\<close>
  is created.  A failure of the listing is not dropped.  The identifiers of the store lie
  below \<open>2^53\<close>, where the number in the path of the request names the identifier.
\<close>

theorem numeric_lookup_falls_back:
  assumes "onlyDigits bookName"
    and "list_all (\<lambda>x. b_id x < 2 ^ 53) (books r)"
    and "getTargetBook bookName False r = (res, r')"
    and "n = parseInt bookName"
    and "k = length (calls r)"
    and "idMiss = (k \<in> set (faults r) \<or> bookById n (books r) = None)"
    and "created = \<lparr>b_id = next_id r, b_name = bookName, b_slug = slugOf r bookName,
                     b_description = Some ''Book created by bookstack-cli import''\<rparr>"
  shows "take 1 (drop k (calls r')) = [GetBook n]
     \<and> (k \<notin> set (faults r) \<and> bookById n (books r) = Some b
          \<longrightarrow> res = Inr b \<and> calls r' = calls r @ [GetBook n] \<and> books r' = books r)
     \<and> (idMiss \<longrightarrow> take 2 (drop k (calls r')) = [GetBook n, GetBooks])
     \<and> (idMiss \<and> Suc k \<in> set (faults r) \<longrightarrow> res = Inl NetworkError)
     \<and> (idMiss \<and> Suc k \<notin> set (faults r) \<and> find (nameMatches bookName) (books r) = Some b
          \<longrightarrow> res = Inr b \<and> calls r' = calls r @ [GetBook n, GetBooks] \<and> books r' = books r)
     \<and> (idMiss \<and> Suc k \<notin> set (faults r) \<and> find (nameMatches bookName) (books r) = None
          \<longrightarrow> calls r' = calls r @ [GetBook n, GetBooks,
                                     CreateBook bookName ''Book created by bookstack-cli import''])
     \<and> (idMiss \<and> Suc k \<notin> set (faults r) \<and> find (nameMatches bookName) (books r) = None
            \<and> Suc (Suc k) \<notin> set (faults r)
          \<longrightarrow> res = Inr created \<and> books r' = books r @ [created])
     \<and> (decimalValue bookName < 2 ^ 53 \<longrightarrow> n = Finite (decimalValue bookName))"
proof -
  have d: "test False [Bol, Rep isDigit 1 None True False, Eol] bookName"
    using assms(1) by (simp only: test_digits)
  have e: "decimalValue bookName < 2 ^ 53 \<longrightarrow> n = Finite (decimalValue bookName)"
    using assms(4) by (simp add: parseInt_def toNumber_small)
  have "take 1 (drop k (calls r')) = [GetBook n]
     \<and> (k \<notin> set (faults r) \<and> bookById n (books r) = Some b
          \<longrightarrow> res = Inr b \<and> calls r' = calls r @ [GetBook n] \<and> books r' = books r)
     \<and> (idMiss \<longrightarrow> take 2 (drop k (calls r')) = [GetBook n, GetBooks])
     \<and> (idMiss \<and> Suc k \<in> set (faults r) \<longrightarrow> res = Inl NetworkError)
     \<and> (idMiss \<and> Suc k \<notin> set (faults r) \<and> find (nameMatches bookName) (books r) = Some b
          \<longrightarrow> res = Inr b \<and> calls r' = calls r @ [GetBook n, GetBooks] \<and> books r' = books r)
     \<and> (idMiss \<and> Suc k \<notin> set (faults r) \<and> find (nameMatches bookName) (books r) = None
          \<longrightarrow> calls r' = calls r @ [GetBook n, GetBooks,
                                     CreateBook bookName ''Book created by bookstack-cli import''])
     \<and> (idMiss \<and> Suc k \<notin> set (faults r) \<and> find (nameMatches bookName) (books r) = None
            \<and> Suc (Suc k) \<notin> set (faults r)
          \<longrightarrow> res = Inr created \<and> books r' = books r @ [created])"
    using d assms(3-)
    by (auto simp: getTargetBook_def getBook_eq findBookByName_eq createBook_eq
        split: if_splits option.splits)
  with e show ?thesis by blast
qed

theorem numeric_lookup_falls_back_witness:
  "onlyDigits ''42'' \<and> decimalValue ''42'' = 42 \<and> parseInt ''42'' = Finite 42
   \<and> list_all (\<lambda>x. b_id x < 2 ^ 53) (books exStore)
   \<and> bookById (Finite 42) (books exStore) = None
   \<and> fst (getTargetBook ''42'' False exStore) = Inr exBook
   \<and> calls (snd (getTargetBook ''42'' False exStore)) = calls exStore @ [GetBook (Finite 42), GetBooks]
   \<and> onlyDigits ''9007199254740993'' \<and> parseInt ''9007199254740993'' = Finite 9007199254740992"
proof -
  have a: "onlyDigits ''42''" by code_simp
  have p: "parseInt ''42'' = Finite 42"
    by (simp add: parseInt_def decimalValue_def toNumber_def bitLength.simps Let_def)
  have v: "decimalValue ''42'' = 42" by (simp add: decimalValue_def)
  have s: "list_all (\<lambda>x. b_id x < 2 ^ 53) (books exStore)" by (simp add: exStore_def exBook_def)
  have b: "getTargetBook ''42'' False exStore
             = (fst (getTargetBook ''42'' False exStore), snd (getTargetBook ''42'' False exStore))"
    by simp
  have c: "bookById (Finite 42) (books exStore) = None"
    by (simp add: bookById_def exStore_def exBook_def)
  have d: "find (nameMatches ''42'') (books exStore) = Some exBook"
    by (simp add: exStore_def exBook_def nameMatches_def)
  have e: "faults exStore = []" by (simp add: exStore_def)
  have a': "onlyDigits ''9007199254740993''" by code_simp
  have p': "parseInt ''9007199254740993'' = Finite 9007199254740992"
    by (simp add: parseInt_def decimalValue_def toNumber_def bitLength.simps Let_def)
  from numeric_lookup_falls_back[OF a s b refl refl refl refl, of exBook] c d e p
  have "fst (getTargetBook ''42'' False exStore) = Inr exBook
        \<and> calls (snd (getTargetBook ''42'' False exStore)) = calls exStore @ [GetBook (Finite 42), GetBooks]"
    by simp
  with a v p s c a' p' show ?thesis by blast
qed


section \<open>Naming a chapter from its readme\<close>

text \<open>
  Claim C8, as amended.  In a directory where every candidate is absent or a file whose
  text is plain (ASCII, no carriage return but just before a line feed, no line of one to
  three hash signs followed by nothing but white space), \<open>deriveNameFromReadme\<close> scans
  \<open>README.md\<close>, \<open>Readme.md\<close>, \<open>readme.md\<close>, \<open>index.md\<close> in this order and returns the name of
  the first candidate that is present and has one: the title of its first level-1 heading
  line if it has any, else of its first level-2, else of its first level-3 heading line,
  else its first non-blank line, trimmed.  A heading line of a level starts with that number
  of hash signs, followed by white space and a text.  A present candidate with no heading and no
  non-blank line is passed over and the scan goes on; the result is undefined when no
  candidate has a name.  On every plain text the body of the loop gives the name of the
  text.
\<close>

theorem deriveNameFromReadme_first_yielding:
  assumes "list_all (plainCandidate entries) [''README.md'', ''Readme.md'', ''readme.md'', ''index.md'']"
  shows "deriveNameFromReadme entries = Inr (specDeriveName entries)
         \<and> (\<forall>content. plainText content \<longrightarrow> nameFromContent content = specName content)"
proof -
  from assms have "\<forall>c \<in> set [''README.md'', ''Readme.md'', ''readme.md'', ''index.md'']. plainCandidate entries c"
    by (simp only: list_all_iff)
  from deriveNameFrom_spec[OF this] nameFromContent_spec show ?thesis
    by (simp add: deriveNameFromReadme_def specDeriveName_def)
qed

theorem deriveNameFromReadme_first_yielding_witness:
  "list_all (plainCandidate exReadmeDir) [''README.md'', ''Readme.md'', ''readme.md'', ''index.md'']
   \<and> deriveNameFromReadme exReadmeDir = Inr (specDeriveName exReadmeDir)
   \<and> specDeriveName exReadmeDir = Some ''Title''
   \<and> plainText (''intro'' @ [CR, LF] @ ''#  Title  '' @ [CR, LF] @ ''body'' @ [CR, LF])
   \<and> nameFromContent (''intro'' @ [CR, LF] @ ''#  Title  '' @ [CR, LF] @ ''body'' @ [CR, LF])
       = specName (''intro'' @ [CR, LF] @ ''#  Title  '' @ [CR, LF] @ ''body'' @ [CR, LF])
   \<and> specName (''intro'' @ [CR, LF] @ ''#  Title  '' @ [CR, LF] @ ''body'' @ [CR, LF]) = Some ''Title''"
proof -
  have a: "list_all (plainCandidate exReadmeDir) [''README.md'', ''Readme.md'', ''readme.md'', ''index.md'']"
    by code_simp
  have b: "specDeriveName exReadmeDir = Some ''Title''" by code_simp
  have c: "plainText (''intro'' @ [CR, LF] @ ''#  Title  '' @ [CR, LF] @ ''body'' @ [CR, LF])"
    by code_simp
  have d: "specName (''intro'' @ [CR, LF] @ ''#  Title  '' @ [CR, LF] @ ''body'' @ [CR, LF]) = Some ''Title''"
    by code_simp
  from deriveNameFromReadme_first_yielding[OF a] a b c d show ?thesis by simp
qed

text \<open>
  The claim C8 as stated fails.  Its last part fails in the example directory: the first
  candidate that is present, \<open>README.md\<close>, has no heading and no non-blank line, and the later
  candidate \<open>index.md\<close> supplies the name.  Its reading of headings and lines fails outside
  the plain texts.  The white space after the hash signs may run over line ends: for a
  line \<open>#\<close> followed by the lines \<open>Next line\<close> and \<open>## Real\<close> the result is \<open>Next line\<close>, not the
  heading \<open>Real\<close>.  A level-1 marker followed by two blanks gives the empty name, and a
  directory whose \<open>README.md\<close> is that text gets the empty name although its \<open>index.md\<close> has a
  heading.  A lone carriage return starts a line for the headings and not for the first
  non-blank line.
\<close>

theorem later_candidate_supplies_name_counterexample:
  "lookupEntry ''README.md'' exReadmeDir = Some (File ''README.md'' ''  '')
   \<and> specName ''  '' = None
   \<and> deriveNameFromReadme exReadmeDir = Inr (Some ''Title'')
   \<and> nameFromContent (''#'' @ [LF] @ ''Next line'' @ [LF] @ ''## Real'') = Some ''Next line''
   \<and> specName (''#'' @ [LF] @ ''Next line'' @ [LF] @ ''## Real'') = Some ''Real''
   \<and> nameFromContent ''#  '' = Some []
   \<and> deriveNameFromReadme [File ''README.md'' ''#  '', File ''index.md'' ''# Title''] = Inr (Some [])
   \<and> specDeriveName [File ''README.md'' ''#  '', File ''index.md'' ''# Title''] = Some ''#''
   \<and> nameFromContent (''text'' @ [CR] @ ''# Title'') = Some ''Title''
   \<and> specName (''text'' @ [CR] @ ''# Title'') = Some (''text'' @ [CR] @ ''# Title'')"
proof -
  have a: "lookupEntry ''README.md'' exReadmeDir = Some (File ''README.md'' ''  '')" by code_simp
  have b: "specName ''  '' = None" by code_simp
  have c: "deriveNameFromReadme exReadmeDir = Inr (Some ''Title'')" by code_simp
  have d: "nameFromContent (''#'' @ [LF] @ ''Next line'' @ [LF] @ ''## Real'') = Some ''Next line''"
    by code_simp
  have e: "specName (''#'' @ [LF] @ ''Next line'' @ [LF] @ ''## Real'') = Some ''Real''" by code_simp
  have f: "nameFromContent ''#  '' = Some []" by code_simp
  have g: "deriveNameFromReadme [File ''README.md'' ''#  '', File ''index.md'' ''# Title''] = Inr (Some [])"
    by code_simp
  have h: "specDeriveName [File ''README.md'' ''#  '', File ''index.md'' ''# Title''] = Some ''#''"
    by code_simp
  have i: "nameFromContent (''text'' @ [CR] @ ''# Title'') = Some ''Title''" by code_simp
  have j: "specName (''text'' @ [CR] @ ''# Title'') = Some (''text'' @ [CR] @ ''# Title'')" by code_simp
  from a b c d e f g h i j show ?thesis by blast
qed


section \<open>Export scenario\<close>

text \<open>
  Claim C9.  Exporting the contents of the book with slug \<open>docbook\<close>, one top-level page
  (id 101, slug \<open>intro\<close>) and one chapter (id 201, slug \<open>ch-one\<close>) with one page (id 301, slug
  \<open>pg-a\<close>), as markdown and with no output directory, writes exactly two files, at
  \<open>./docbook/intro-101.md\<close> and \<open>./docbook/ch-one-201/pg-a-301.md\<close>; \<open>path.join\<close> hands these
  places to \<open>fs.writeFile\<close> in normal form, without the leading \<open>./\<close>.
\<close>

theorem export_contents_scenario:
  assumes "exportPage 101 ''markdown'' = Inr t1" and "exportPage 301 ''markdown'' = Inr t2"
  shows "exportContents exportPage bookId (Some ''docbook'')
           [PageItem \<lparr>pi_id = 101, pi_slug = Some ''intro'', pi_name = n1\<rparr>,
            ChapterItem 201 (Some ''ch-one'') n2 (Some [\<lparr>pi_id = 301, pi_slug = Some ''pg-a'', pi_name = n3\<rparr>])]
           \<lparr>dir = None, fmtOption = ''markdown'', dryRunExport = False\<rparr>
         = (Inr (), 2, [EnsureDir ''./docbook'', WriteFile ''docbook/intro-101.md'' t1,
                        EnsureDir ''docbook/ch-one-201'', WriteFile ''docbook/ch-one-201/pg-a-301.md'' t2])
       \<and> writtenFiles [EnsureDir ''./docbook'', WriteFile ''docbook/intro-101.md'' t1,
                        EnsureDir ''docbook/ch-one-201'', WriteFile ''docbook/ch-one-201/pg-a-301.md'' t2]
         = map normalize [''./docbook/intro-101.md'', ''./docbook/ch-one-201/pg-a-301.md'']"
  using assms
  by (simp add: exportContents_def Let_def orElse_def lower_markdown pageItemsOf_def isChapterItem_def
      sanitize_intro sanitize_ch_one sanitize_pg_a showNat_101 showNat_201 showNat_301
      join_intro join_ch_one join_pg_a writtenFiles_def norm_intro norm_pg_a)

theorem export_contents_scenario_witness:
  "exportContents (\<lambda>i f. Inr (''page '' @ showNat i)) 7 (Some ''docbook'')
           [PageItem \<lparr>pi_id = 101, pi_slug = Some ''intro'', pi_name = ''Intro''\<rparr>,
            ChapterItem 201 (Some ''ch-one'') ''Ch One'' (Some [\<lparr>pi_id = 301, pi_slug = Some ''pg-a'', pi_name = ''Pg A''\<rparr>])]
           \<lparr>dir = None, fmtOption = ''markdown'', dryRunExport = False\<rparr>
         = (Inr (), 2, [EnsureDir ''./docbook'', WriteFile ''docbook/intro-101.md'' ''page 101'',
                        EnsureDir ''docbook/ch-one-201'', WriteFile ''docbook/ch-one-201/pg-a-301.md'' ''page 301''])"
  using export_contents_scenario[of "\<lambda>i f. Inr (''page '' @ showNat i)" "''page 101''" "''page 301''" 7 "''Intro''" "''Ch One''" "''Pg A''"]
  by (simp add: showNat_101 showNat_301)


section \<open>Single-file import\<close>

text \<open>
  Claim C10.  The page that \<open>importFile\<close> sends has the HTML that \<open>convertToHtml\<close> gives for
  the format \<open>options.format || 'markdown'\<close>: when no format is given this is the markdown
  transform of the content, whatever the extension of the file, so \<open>detectFormat\<close> has no
  part in it.  Its markdown field is set exactly when \<open>options.format\<close> is \<open>'markdown'\<close>.
\<close>

theorem importFile_converts_as_markdown:
  assumes "\<not> dryRun opts"
    and "getTargetBook (orElse (book opts) (basename filePath (extname filePath))) False (store w) = (Inr b, r1)"
  shows "\<exists>d. calls (store (snd (importFile filePath content opts w))) = calls r1 @ [CreatePage d]
            \<and> pd_html d = convertToHtml content (orElse (format opts) ''markdown'')
            \<and> (format opts = None \<longrightarrow> pd_html d = simpleMarkdownToHtml content)
            \<and> pd_markdown d = (if format opts = Some ''markdown'' then Some content else None)"
proof -
  let ?d = "\<lparr>pd_book_id = b_id b, pd_chapter_id = None, pd_name = basename filePath (extname filePath),
              pd_html = convertToHtml content (orElse (format opts) ''markdown''),
              pd_markdown = (if format opts = Some ''markdown'' then Some content else None)\<rparr>"
  have "snd (importFile filePath content opts w) = snd (onRemote (createPage ?d) (w\<lparr>store := r1\<rparr>))"
    using assms by (simp add: importFile_def Let_def onRemote_def split: prod.splits sum.splits)
  then have "calls (store (snd (importFile filePath content opts w))) = calls r1 @ [CreatePage ?d]"
    by (simp add: calls_onRemote calls_createPage)
  moreover have "format opts = None \<longrightarrow> pd_html ?d = simpleMarkdownToHtml content"
    by (simp add: orElse_def convertToHtml_def)
  ultimately show ?thesis by (intro exI[of _ ?d]) simp
qed

theorem importFile_converts_as_markdown_witness:
  "\<not> dryRun exOpts \<and> format exOpts = None \<and> detectFormat ''/work/page.html'' = ''html''
   \<and> simpleMarkdownToHtml ''<b>hi</b>'' = ''<p><b>hi</b></p>''
   \<and> (\<exists>d. createdPages (calls (store (snd (importFile ''/work/page.html'' ''<b>hi</b>'' exOpts exWorld)))) = [d]
          \<and> pd_html d = ''<p><b>hi</b></p>'' \<and> pd_markdown d = None)"
proof -
  have a: "\<not> dryRun exOpts" "format exOpts = None" by (simp_all add: exOpts_def)
  have b: "detectFormat ''/work/page.html'' = ''html''" by code_simp
  have c: "simpleMarkdownToHtml ''<b>hi</b>'' = ''<p><b>hi</b></p>''" by code_simp
  have e: "fst (getTargetBook (orElse (book exOpts) (basename ''/work/page.html'' (extname ''/work/page.html''))) False (store exWorld))
           = Inr \<lparr>b_id = 1, b_name = ''Sample'', b_slug = ''sample'', b_description = Some ''Book created by bookstack-cli import''\<rparr>"
    by code_simp
  have f: "createdPages (calls (snd (getTargetBook (orElse (book exOpts) (basename ''/work/page.html'' (extname ''/work/page.html''))) False (store exWorld)))) = []"
    by code_simp
  let ?g = "getTargetBook (orElse (book exOpts) (basename ''/work/page.html'' (extname ''/work/page.html''))) False (store exWorld)"
  have g: "?g = (Inr \<lparr>b_id = 1, b_name = ''Sample'', b_slug = ''sample'', b_description = Some ''Book created by bookstack-cli import''\<rparr>, snd ?g)"
    using e by (metis prod.collapse)
  from importFile_converts_as_markdown[OF a(1) g, of "''<b>hi</b>''"] a(2) c f
  obtain d where "calls (store (snd (importFile ''/work/page.html'' ''<b>hi</b>'' exOpts exWorld))) = calls (snd ?g) @ [CreatePage d]"
      "pd_html d = ''<p><b>hi</b></p>''" "pd_markdown d = None"
    by auto
  with f have "createdPages (calls (store (snd (importFile ''/work/page.html'' ''<b>hi</b>'' exOpts exWorld)))) = [d]
      \<and> pd_html d = ''<p><b>hi</b></p>'' \<and> pd_markdown d = None"
    by (simp add: createdPages_def)
  with a b c show ?thesis by blast
qed

end
